theory Spec2Isabelle
  imports Complex_Main
begin

section \<open>The document tree\<close>

text \<open>
  The validator of \<^verbatim>\<open>src/main.ts\<close> walks a DOM tree that it does not change. The tree
  is a value of the datatype \<open>node\<close>; a node is named by its address: the list of child
  indices leading to it, innermost index first, so that the parent of \<open>i # p\<close> is \<open>p\<close>
  and \<open>[]\<close> is the top of the tree (the only node without a parent). An attribute node is
  named by its owner element and its position in \<open>attributes\<close>.
\<close>

datatype attr = Attr (attrName: string) (attrValue: string) (attrPrefix: "string option")

datatype node =
    Element (tagName: string) (attributes: "attr list") (elementKids: "node list")
  | Text string
  | Comment string
  | CDATASection string
  | ProcessingInstruction string string
  | DocumentType string
  | Document "node list"

type_synonym path = "nat list"

datatype noderef = NodeRef path | AttrRef path nat

fun nodeType :: "node \<Rightarrow> nat" where
  "nodeType (Element _ _ _) = 1"
| "nodeType (Text _) = 3"
| "nodeType (CDATASection _) = 4"
| "nodeType (ProcessingInstruction _ _) = 7"
| "nodeType (Comment _) = 8"
| "nodeType (Document _) = 9"
| "nodeType (DocumentType _) = 10"

fun childNodes :: "node \<Rightarrow> node list" where
  "childNodes (Element _ _ cs) = cs"
| "childNodes (Document cs) = cs"
| "childNodes _ = []"

fun isElement :: "node \<Rightarrow> bool" where
  "isElement (Element _ _ _) = True"
| "isElement _ = False"

fun node_at :: "node \<Rightarrow> path \<Rightarrow> node option" where
  "node_at d [] = Some d"
| "node_at d (i # p) =
     (case node_at d p of
        None \<Rightarrow> None
      | Some n \<Rightarrow> if i < length (childNodes n) then Some (childNodes n ! i) else None)"

definition kidsAt :: "node \<Rightarrow> path \<Rightarrow> node list" where
  "kidsAt d p = (case node_at d p of None \<Rightarrow> [] | Some n \<Rightarrow> childNodes n)"

text \<open>\<open>childNodes[index]\<close> for a JavaScript number: \<open>undefined\<close> out of range.\<close>

definition childAt :: "node \<Rightarrow> path \<Rightarrow> int \<Rightarrow> path option" where
  "childAt d p i =
     (if 0 \<le> i \<and> nat i < length (kidsAt d p) then Some (nat i # p) else None)"

definition firstChild :: "node \<Rightarrow> path \<Rightarrow> path option" where
  "firstChild d p = (if kidsAt d p = [] then None else Some (0 # p))"

definition nextSibling :: "node \<Rightarrow> path \<Rightarrow> path option" where
  "nextSibling d n =
     (case n of
        [] \<Rightarrow> None
      | i # p \<Rightarrow> if Suc i < length (kidsAt d p) then Some (Suc i # p) else None)"

definition previousSibling :: "path \<Rightarrow> path option" where
  "previousSibling n = (case n of [] \<Rightarrow> None | i # p \<Rightarrow> (case i of 0 \<Rightarrow> None | Suc j \<Rightarrow> Some (j # p)))"

text \<open>The last element among the first \<open>k\<close> children of \<open>p\<close>.\<close>

fun lastElementBelow :: "node list \<Rightarrow> nat \<Rightarrow> nat option" where
  "lastElementBelow cs 0 = None"
| "lastElementBelow cs (Suc k) =
     (if k < length cs \<and> isElement (cs ! k) then Some k else lastElementBelow cs k)"

definition lastElementChild :: "node \<Rightarrow> path \<Rightarrow> path option" where
  "lastElementChild d p =
     map_option (\<lambda>k. k # p) (lastElementBelow (kidsAt d p) (length (kidsAt d p)))"

definition previousElementSibling :: "node \<Rightarrow> path \<Rightarrow> path option" where
  "previousElementSibling d n =
     (case n of
        [] \<Rightarrow> None
      | i # p \<Rightarrow> map_option (\<lambda>k. k # p) (lastElementBelow (kidsAt d p) i))"

definition childElementCount :: "node \<Rightarrow> path \<Rightarrow> nat" where
  "childElementCount d p = length (filter isElement (kidsAt d p))"

definition startsWith :: "string \<Rightarrow> string \<Rightarrow> bool" where
  "startsWith pre s = (take (length pre) s = pre)"

section \<open>The grammar engine\<close>

text \<open>
  The grammar engine (salve) is not part of the repository. It is a parameter: a record
  of the operations the validator calls on a walker. A walker is a value of type \<open>'w\<close>;
  \<open>clone()\<close> is the identity on values, and an operation that mutates the walker
  returns the new one. \<open>fireEvent\<close> returns \<open>false\<close> (\<open>None\<close>) or an array of
  errors. A possible event (type \<open>'p\<close>) is read through \<open>params[0]\<close> (\<open>evKind\<close>)
  and the name pattern \<open>params[1]\<close> (\<open>patMatch\<close>, \<open>patWildcardMatch\<close>).
\<close>

datatype event =
    EnterContext
  | LeaveContext
  | DefinePrefix string string
  | EnterStartTag string string
  | AttributeName string string
  | AttributeValue string
  | LeaveStartTag
  | TextEvent string
  | EndTag string string

datatype verror = ValidationError string

datatype EName = EName (enameNs: string) (enameName: string)

record ('w, 'p) grammar =
  newWalker :: "'w"
  fireEvent :: "'w \<Rightarrow> event \<Rightarrow> 'w \<times> verror list option"
  walkerEnd :: "'w \<Rightarrow> 'w \<times> verror list option"
  possible :: "'w \<Rightarrow> 'p list"
  resolveName :: "'w \<Rightarrow> string \<Rightarrow> bool \<Rightarrow> EName option"
  evKind :: "'p \<Rightarrow> string"
  patMatch :: "'p \<Rightarrow> string \<Rightarrow> string \<Rightarrow> bool"
  patWildcardMatch :: "'p \<Rightarrow> string \<Rightarrow> string \<Rightarrow> bool"

section \<open>The validator's state\<close>

datatype Stage = START_TAG | CONTENTS | END_TAG

datatype WorkingState = INCOMPLETE | WORKING | INVALID | VALID

datatype ProgressState = ProgressState (statePartDone: rat) (statePortion: rat)

datatype ErrorData = ErrorData (error: verror) (node: "noderef option") (index: "nat option")

datatype notification =
    ErrorNotification ErrorData
  | ResetErrors nat
  | StateUpdate WorkingState rat
  | PossibleDueToWildcardChange noderef

datatype CustomNodeProperty =
    EventIndexAfter
  | EventIndexAfterStart
  | EventIndexBeforeAttributes
  | EventIndexAfterAttributes

datatype failure =
    Error string
  | UnexpectedNodeType nat
  | TypeError
  | EventIndexException

datatype Options = Options
  (optPrefix: "string option")
  (optTimeout: "int option")
  (optMaxTimespan: "int option")
  (optWalkerCacheGap: "int option")

text \<open>
  The fields of class \<open>Validator\<close>, under their names without the leading underscore.
  \<open>rootNode\<close> is \<open>this.root\<close>, \<open>document\<close> the tree it lives in. The expando properties
  that the validator writes on nodes under its prefix are the two tables
  \<open>eventIndexProps\<close> (the four event indices) and \<open>wildcardProps\<close>
  (\<open>PossibleDueToWildcard\<close>). \<open>emitted\<close> records, in order, what \<open>this._events._emit\<close>
  published; subscribers are outside the model. Progress numbers are rationals: the
  doubles of the code are idealised, so the values of \<open>partDone\<close>, of the progress stack and
  of the \<open>StateUpdate\<close> notifications are exact where the code rounds, and no theorem below
  states what they are.
\<close>

record 'w validator =
  cycleEntered :: int
  timeout :: int
  maxTimespan :: int
  timeoutId :: "nat option"
  restarting :: bool
  errors :: "ErrorData list"
  validationEvents :: "event list"
  validationWalker :: "'w"
  workingState :: WorkingState
  partDone :: rat
  validationStage :: Stage
  previousChild :: "path option"
  validationStack :: "ProgressState list"
  curEl :: path
  walkerCache :: "int \<Rightarrow> 'w option"
  walkerCacheMax :: int
  prefix :: string
  walkerCacheGap :: int
  emitted :: "notification list"
  rootNode :: path
  document :: node
  eventIndexProps :: "noderef \<Rightarrow> CustomNodeProperty \<Rightarrow> nat option"
  wildcardProps :: "noderef \<Rightarrow> bool option"

definition getNodeProperty :: "'w validator \<Rightarrow> noderef \<Rightarrow> CustomNodeProperty \<Rightarrow> nat option" where
  "getNodeProperty v n k = eventIndexProps v n k"

definition setNodeProperty :: "'w validator \<Rightarrow> noderef \<Rightarrow> CustomNodeProperty \<Rightarrow> nat \<Rightarrow> 'w validator" where
  "setNodeProperty v n k x = v\<lparr>eventIndexProps := (eventIndexProps v)(n := (eventIndexProps v n)(k \<mapsto> x))\<rparr>"

definition emit :: "'w validator \<Rightarrow> notification \<Rightarrow> 'w validator" where
  "emit v x = v\<lparr>emitted := emitted v @ [x]\<rparr>"

definition setWorkingState :: "'w validator \<Rightarrow> WorkingState \<Rightarrow> rat \<Rightarrow> 'w validator" where
  "setWorkingState v newState newDone =
     (let c1 = (workingState v \<noteq> newState);
          v1 = (if c1 then v\<lparr>workingState := newState\<rparr> else v);
          c2 = (partDone v1 \<noteq> newDone);
          v2 = (if c2 then v1\<lparr>partDone := newDone\<rparr> else v1)
      in if c1 \<or> c2 then emit v2 (StateUpdate newState newDone) else v2)"

text \<open>\<open>_stop(state?)\<close>; \<open>stop()\<close> is \<open>_stop()\<close> with no state.\<close>

definition stopWith :: "'w validator \<Rightarrow> WorkingState option \<Rightarrow> 'w validator" where
  "stopWith v st =
     (let v1 = v\<lparr>timeoutId := None\<rparr>
      in case st of
           None \<Rightarrow>
             if workingState v1 = WORKING then setWorkingState v1 INCOMPLETE (partDone v1) else v1
         | Some s \<Rightarrow> setWorkingState v1 s (partDone v1))"

definition stop :: "'w validator \<Rightarrow> 'w validator" where
  "stop v = stopWith v None"

definition negativeOption :: "int option \<Rightarrow> bool" where
  "negativeOption x = (case x of None \<Rightarrow> False | Some n \<Rightarrow> n < 0)"

definition optionOr :: "'a option \<Rightarrow> 'a \<Rightarrow> 'a" where
  "optionOr x dflt = (case x of None \<Rightarrow> dflt | Some y \<Rightarrow> y)"

text \<open>
  The constructor. The keys are checked in the order \<open>timeout\<close>, \<open>maxTimespan\<close>,
  \<open>walkerCacheGap\<close>; the first negative one throws. An empty prefix is falsy and keeps
  the default. The tree handed over is fresh: no node carries a property yet.
  \<open>initialState\<close> is the object the constructor leaves when no check throws.
\<close>

definition initialState :: "('w, 'p) grammar \<Rightarrow> node \<Rightarrow> path \<Rightarrow> Options \<Rightarrow> 'w validator" where
  "initialState g d r opts =
     (let v0 = \<lparr> cycleEntered = 0,
                 timeout = optionOr (optTimeout opts) 200,
                 maxTimespan = optionOr (optMaxTimespan opts) 100,
                 timeoutId = None,
                 restarting = False,
                 errors = [],
                 validationEvents = [],
                 validationWalker = newWalker g,
                 workingState = INCOMPLETE,
                 partDone = 0,
                 validationStage = CONTENTS,
                 previousChild = None,
                 validationStack = [ProgressState 0 1],
                 curEl = r,
                 walkerCache = (\<lambda>_. None),
                 walkerCacheMax = - 1,
                 prefix = (case optPrefix opts of
                             None \<Rightarrow> ''salveDom''
                           | Some p \<Rightarrow> if p = [] then ''salveDom'' else p),
                 walkerCacheGap = optionOr (optWalkerCacheGap opts) 100,
                 emitted = [],
                 rootNode = r,
                 document = d,
                 eventIndexProps = (\<lambda>_ _. None),
                 wildcardProps = (\<lambda>_. None) \<rparr>;
          v1 = setNodeProperty v0 (NodeRef r) EventIndexAfterStart (length (validationEvents v0))
      in setWorkingState v1 INCOMPLETE 0)"

definition newValidator :: "('w, 'p) grammar \<Rightarrow> node \<Rightarrow> path \<Rightarrow> Options \<Rightarrow> failure + 'w validator" where
  "newValidator g d r opts =
     (if negativeOption (optTimeout opts)
        then Inl (Error ''the value for timeout cannot be negative'')
      else if negativeOption (optMaxTimespan opts)
        then Inl (Error ''the value for maxTimespan cannot be negative'')
      else if negativeOption (optWalkerCacheGap opts)
        then Inl (Error ''the value for walkerCacheGap cannot be negative'')
      else Inr (initialState g d r opts))"

section \<open>Recording errors and firing events\<close>

definition processError :: "'w validator \<Rightarrow> ErrorData \<Rightarrow> 'w validator" where
  "processError v e = emit (v\<lparr>errors := errors v @ [e]\<rparr>) (ErrorNotification e)"

fun processEventResult :: "'w validator \<Rightarrow> verror list \<Rightarrow> noderef option \<Rightarrow> nat option \<Rightarrow> 'w validator" where
  "processEventResult v [] n ix = v"
| "processEventResult v (r # rs) n ix = processEventResult (processError v (ErrorData r n ix)) rs n ix"

text \<open>
  \<open>_fireAndProcessEvent\<close> appends the event to \<open>this._validationEvents\<close> and fires it on
  the walker it is given, which need not be the validator's own: the walker is an argument
  and a result beside the state.
\<close>

definition fireAndProcessEvent ::
  "('w, 'p) grammar \<Rightarrow> 'w validator \<Rightarrow> 'w \<Rightarrow> event \<Rightarrow> noderef option \<Rightarrow> nat option \<Rightarrow> 'w validator \<times> 'w" where
  "fireAndProcessEvent g v w ev el ix =
     (let v1 = v\<lparr>validationEvents := validationEvents v @ [ev]\<rparr>;
          r = fireEvent g w ev
      in case snd r of
           None \<Rightarrow> (v1, fst r)
         | Some rs \<Rightarrow> (processEventResult v1 rs el ix, fst r))"

fun wildcardLoop :: "('w, 'p) grammar \<Rightarrow> 'p list \<Rightarrow> string \<Rightarrow> string \<Rightarrow> string \<Rightarrow> bool \<Rightarrow> bool" where
  "wildcardLoop g [] eventName ns nm matched = matched"
| "wildcardLoop g (ev # evs) eventName ns nm matched =
     (if evKind g ev \<noteq> eventName then wildcardLoop g evs eventName ns nm matched
      else
        (let matches = patMatch g ev ns nm
         in if matches \<and> \<not> patWildcardMatch g ev ns nm then False
            else wildcardLoop g evs eventName ns nm (matched \<or> matches)))"

definition isPossibleDueToWildcard :: "('w, 'p) grammar \<Rightarrow> 'w \<Rightarrow> string \<Rightarrow> string \<Rightarrow> string \<Rightarrow> bool" where
  "isPossibleDueToWildcard g w eventName ns nm = wildcardLoop g (possible g w) eventName ns nm False"

definition setPossibleDueToWildcard ::
  "('w, 'p) grammar \<Rightarrow> 'w validator \<Rightarrow> noderef \<Rightarrow> 'w \<Rightarrow> string \<Rightarrow> string \<Rightarrow> string \<Rightarrow> 'w validator" where
  "setPossibleDueToWildcard g v n w eventName ns nm =
     (let previous = wildcardProps v n;
          possibleNow = isPossibleDueToWildcard g w eventName ns nm;
          v1 = v\<lparr>wildcardProps := (wildcardProps v)(n \<mapsto> possibleNow)\<rparr>
      in if previous = None \<or> previous \<noteq> Some possibleNow
         then emit v1 (PossibleDueToWildcardChange n)
         else v1)"

text \<open>\<open>_fireAttributeNameEvent\<close>: the state, the walker, and whether the event was fired.\<close>

definition fireAttributeNameEvent ::
  "('w, 'p) grammar \<Rightarrow> 'w validator \<Rightarrow> 'w \<Rightarrow> noderef \<Rightarrow> attr \<Rightarrow> 'w validator \<times> 'w \<times> bool" where
  "fireAttributeNameEvent g v w ref a =
     (case resolveName g w (attrName a) True of
        None \<Rightarrow>
          (processError v
             (ErrorData (ValidationError (''cannot resolve attribute name '' @ attrName a))
                (Some ref) (Some 0)),
           w, False)
      | Some en \<Rightarrow>
          (let v1 = setPossibleDueToWildcard g v ref w ''attributeName'' (enameNs en) (enameName en);
               r = fireAndProcessEvent g v1 w (AttributeName (enameNs en) (enameName en))
                     (Some ref) (Some 0)
           in (fst r, snd r, True)))"

text \<open>The loop of \<open>_fireAttributeEvents\<close>, from attribute number \<open>i\<close> on.\<close>

fun fireAttributeEvents ::
  "('w, 'p) grammar \<Rightarrow> 'w validator \<Rightarrow> 'w \<Rightarrow> path \<Rightarrow> attr list \<Rightarrow> nat \<Rightarrow> 'w validator \<times> 'w" where
  "fireAttributeEvents g v w el [] i = (v, w)"
| "fireAttributeEvents g v w el (a # as) i =
     (if attrName a = ''xmlns'' \<or> startsWith ''xmlns'' (attrName a)
      then fireAttributeEvents g v w el as (Suc i)
      else
        (let r = fireAttributeNameEvent g v w (AttrRef el i) a
         in if snd (snd r)
            then
              (let r2 = fireAndProcessEvent g (fst r) (fst (snd r)) (AttributeValue (attrValue a))
                          (Some (AttrRef el i)) (Some 0)
               in fireAttributeEvents g (fst r2) (snd r2) el as (Suc i))
            else fireAttributeEvents g (fst r) (fst (snd r)) el as (Suc i)))"

text \<open>The namespace declarations of the start tag, fired before the tag name is resolved.\<close>

fun definePrefixes ::
  "('w, 'p) grammar \<Rightarrow> 'w validator \<Rightarrow> 'w \<Rightarrow> path \<Rightarrow> attr list \<Rightarrow> 'w validator \<times> 'w" where
  "definePrefixes g v w el [] = (v, w)"
| "definePrefixes g v w el (a # as) =
     (if attrName a = ''xmlns''
      then
        (let r = fireAndProcessEvent g v w (DefinePrefix [] (attrValue a)) (Some (NodeRef el)) (Some 0)
         in definePrefixes g (fst r) (snd r) el as)
      else if startsWith ''xmlns:'' (attrName a)
      then
        (let r = fireAndProcessEvent g v w (DefinePrefix (drop 6 (attrName a)) (attrValue a))
                   (Some (NodeRef el)) (Some 0)
         in definePrefixes g (fst r) (snd r) el as)
      else definePrefixes g v w el as)"

section \<open>One traversal step\<close>

text \<open>
  A step returns the state it leaves behind together with either the value returned or
  the exception thrown: an exception does not undo the assignments made before it.
\<close>

type_synonym 'w step = "'w validator \<times> (failure + bool)"

text \<open>
  The scan of the children in the \<open>CONTENTS\<close> stage, from the child numbered \<open>i\<close>
  (the head of the list) on: text is accumulated, comments are skipped, and the scan ends
  at the first element, at the end of the children, or at a node of another type.
\<close>

datatype scanResult =
    FoundElement path "string list" "path option"
  | Exhausted "string list" "path option"
  | Unexpected nat

fun contentsLoop :: "node list \<Rightarrow> path \<Rightarrow> nat \<Rightarrow> string list \<Rightarrow> path option \<Rightarrow> scanResult" where
  "contentsLoop [] par i acc accNode = Exhausted acc accNode"
| "contentsLoop (n # ns) par i acc accNode =
     (case n of
        Text s \<Rightarrow>
          contentsLoop ns par (Suc i) (acc @ [s]) (if accNode = None then Some (i # par) else accNode)
      | Element _ _ _ \<Rightarrow> FoundElement (i # par) acc accNode
      | Comment _ \<Rightarrow> contentsLoop ns par (Suc i) acc accNode
      | _ \<Rightarrow> Unexpected (nodeType n))"

definition contentsScan :: "node \<Rightarrow> path option \<Rightarrow> scanResult" where
  "contentsScan d start =
     (case start of
        None \<Rightarrow> Exhausted [] None
      | Some [] \<Rightarrow> contentsLoop [d] [] 0 [] None
      | Some (i # par) \<Rightarrow> contentsLoop (drop i (kidsAt d par)) par i [] None)"

definition flushText ::
  "('w, 'p) grammar \<Rightarrow> 'w validator \<Rightarrow> 'w \<Rightarrow> string list \<Rightarrow> path option \<Rightarrow> 'w validator \<times> 'w" where
  "flushText g v w acc accNode =
     (if acc \<noteq> [] then
        (let r = fireEvent g w (TextEvent (concat acc))
         in case snd r of
              None \<Rightarrow> (v, fst r)
            | Some rs \<Rightarrow>
                (processEventResult v rs
                   (case accNode of Some (i # par) \<Rightarrow> Some (NodeRef par) | _ \<Rightarrow> None)
                   (case accNode of Some (i # par) \<Rightarrow> Some i | _ \<Rightarrow> None),
                 fst r))
      else (v, w))"

definition runDocumentValidation :: "'w validator \<Rightarrow> 'w validator" where
  "runDocumentValidation v = v"

definition startTagStage :: "('w, 'p) grammar \<Rightarrow> 'w validator \<Rightarrow> rat \<Rightarrow> 'w step" where
  "startTagStage g v portion =
     (let v1 = v\<lparr>validationStack := ProgressState (partDone v) portion # validationStack v\<rparr>;
          r2 = fireAndProcessEvent g v1 (validationWalker v1) EnterContext
                 (Some (NodeRef (curEl v))) (Some 0)
      in case node_at (document v) (curEl v) of
           Some (Element tag attrs cs) \<Rightarrow>
             (let r3 = definePrefixes g (fst r2) (snd r2) (curEl v) attrs
              in case curEl v of
                   [] \<Rightarrow> ((fst r3)\<lparr>validationWalker := snd r3\<rparr>, Inl TypeError)
                 | curElIndex # parent \<Rightarrow>
                     (let resolved = resolveName g (snd r3) tag False;
                          v4 = (case resolved of
                                  None \<Rightarrow>
                                    processEventResult (fst r3)
                                      [ValidationError (''cannot resolve the name '' @ tag)]
                                      (Some (NodeRef parent)) (Some curElIndex)
                                | Some _ \<Rightarrow> fst r3);
                          ename = (case resolved of None \<Rightarrow> EName [] tag | Some en \<Rightarrow> en);
                          v5 = setPossibleDueToWildcard g v4 (NodeRef (curEl v)) (snd r3)
                                 ''enterStartTag'' (enameNs ename) (enameName ename);
                          r6 = fireAndProcessEvent g v5 (snd r3)
                                 (EnterStartTag (enameNs ename) (enameName ename))
                                 (Some (NodeRef parent)) (Some curElIndex);
                          v7 = setNodeProperty (fst r6) (NodeRef (curEl v))
                                 EventIndexBeforeAttributes (length (validationEvents (fst r6)));
                          r8 = fireAttributeEvents g v7 (snd r6) (curEl v) attrs 0;
                          v9 = setNodeProperty (fst r8) (NodeRef (curEl v))
                                 EventIndexAfterAttributes (length (validationEvents (fst r8)));
                          r10 = fireAndProcessEvent g v9 (snd r8) LeaveStartTag
                                  (Some (NodeRef (curEl v))) (Some 0);
                          v11 = (fst r10)\<lparr>validationStage := CONTENTS\<rparr>;
                          v12 = setNodeProperty v11 (NodeRef (curEl v)) EventIndexAfterStart
                                  (length (validationEvents v11))
                      in (v12\<lparr>validationWalker := snd r10,
                              cycleEntered := cycleEntered v12 - 1\<rparr>,
                          Inr True)))
         | _ \<Rightarrow> ((fst r2)\<lparr>validationWalker := snd r2\<rparr>, Inl TypeError))"

definition endTagStage :: "('w, 'p) grammar \<Rightarrow> 'w validator \<Rightarrow> rat \<Rightarrow> 'w step" where
  "endTagStage g v portion =
     (if curEl v = rootNode v then
        (let r1 = walkerEnd g (validationWalker v);
             v1 = (case snd r1 of
                     None \<Rightarrow> v
                   | Some rs \<Rightarrow>
                       processEventResult v rs (Some (NodeRef (curEl v)))
                         (Some (length (kidsAt (document v) (curEl v)))));
             v2 = runDocumentValidation v1;
             v3 = setNodeProperty v2 (NodeRef (curEl v)) EventIndexAfter (length (validationEvents v2));
             v4 = v3\<lparr>partDone := 1\<rparr>;
             v5 = stopWith v4 (Some (if length (errors v4) > 0 then INVALID else VALID))
         in (v5\<lparr>validationWalker := fst r1, cycleEntered := cycleEntered v5 - 1\<rparr>, Inr False))
      else
        (case node_at (document v) (curEl v) of
           Some (Element tag attrs cs) \<Rightarrow>
             (let ename = (case resolveName g (validationWalker v) tag False of
                             None \<Rightarrow> EName [] tag
                           | Some en \<Rightarrow> en);
                  r1 = fireAndProcessEvent g v (validationWalker v)
                         (EndTag (enameNs ename) (enameName ename))
                         (Some (NodeRef (curEl v))) (Some (length cs));
                  r2 = fireAndProcessEvent g (fst r1) (snd r1) LeaveContext
                         (Some (NodeRef (curEl v))) (Some (length cs));
                  v2 = (fst r2)\<lparr>validationWalker := snd r2\<rparr>
              in case curEl v of
                           [] \<Rightarrow> (v2, Inl TypeError)
                         | i # parent \<Rightarrow>
                             (let v3 = v2\<lparr>previousChild := Some (curEl v), curEl := parent\<rparr>
                              in if parent \<noteq> rootNode v then
                                   (case validationStack v3 of
                                      _ # first # rest \<Rightarrow>
                                        (let nextDone = statePartDone first + portion;
                                             v4 = v3\<lparr>validationStack :=
                                                      ProgressState nextDone (statePortion first) # rest\<rparr>;
                                             v5 = setWorkingState v4 WORKING nextDone;
                                             v6 = setNodeProperty v5 (NodeRef (curEl v)) EventIndexAfter
                                                    (length (validationEvents v5));
                                             v7 = v6\<lparr>validationStage := CONTENTS\<rparr>
                                         in (v7\<lparr>cycleEntered := cycleEntered v7 - 1\<rparr>, Inr True))
                                    | _ \<Rightarrow> (v3\<lparr>validationStack := []\<rparr>, Inl TypeError))
                                 else
                                   (let v5 = setWorkingState v3 WORKING (partDone v3);
                                        v6 = setNodeProperty v5 (NodeRef (curEl v)) EventIndexAfter
                                               (length (validationEvents v5));
                                        v7 = v6\<lparr>validationStage := CONTENTS\<rparr>
                                    in (v7\<lparr>cycleEntered := cycleEntered v7 - 1\<rparr>, Inr True))))
         | _ \<Rightarrow> (v, Inl TypeError)))"

text \<open>
  Where the scan starts:
  \<^verbatim>\<open>(this._previousChild === null) ? curEl.firstChild : this._previousChild.nextSibling\<close>.
\<close>

definition contentsStart :: "'w validator \<Rightarrow> path option" where
  "contentsStart v =
     (case previousChild v of
        None \<Rightarrow> firstChild (document v) (curEl v)
      | Some pc \<Rightarrow> nextSibling (document v) pc)"

definition contentsStage :: "('w, 'p) grammar \<Rightarrow> 'w validator \<Rightarrow> rat \<Rightarrow> 'w step" where
  "contentsStage g v portion =
     (case contentsScan (document v) (contentsStart v) of
        Unexpected t \<Rightarrow> (v, Inl (UnexpectedNodeType t))
      | FoundElement child acc accNode \<Rightarrow>
          (let r = flushText g v (validationWalker v) acc accNode;
               portion' = portion / of_nat (childElementCount (document v) (curEl v))
           in startTagStage g
                ((fst r)\<lparr>validationWalker := snd r, curEl := child,
                         validationStage := START_TAG, previousChild := None\<rparr>)
                portion')
      | Exhausted acc accNode \<Rightarrow>
          (let r = flushText g v (validationWalker v) acc accNode
           in endTagStage g ((fst r)\<lparr>validationWalker := snd r, validationStage := END_TAG\<rparr>) portion))"

text \<open>\<open>_cycle\<close>: the reentrancy guard, then the stage found in \<open>_validationStage\<close>.\<close>

definition cycle :: "('w, 'p) grammar \<Rightarrow> 'w validator \<Rightarrow> 'w step" where
  "cycle g v =
     (let v0 = v\<lparr>restarting := False\<rparr>
      in if cycleEntered v0 > 0 then (v0, Inl (Error ''internal error: _cycle is being reentered''))
         else if cycleEntered v0 < 0 then (v0, Inl (Error ''internal error: _cycleEntered negative''))
         else
           (let v1 = v0\<lparr>cycleEntered := cycleEntered v0 + 1\<rparr>
            in case validationStack v1 of
                 [] \<Rightarrow> (v1, Inl TypeError)
               | frame # _ \<Rightarrow>
                   (case validationStage v1 of
                      START_TAG \<Rightarrow> startTagStage g v1 (statePortion frame)
                    | CONTENTS \<Rightarrow> contentsStage g v1 (statePortion frame)
                    | END_TAG \<Rightarrow> endTagStage g v1 (statePortion frame))))"

section \<open>Starting, stopping and restarting\<close>

text \<open>
  \<open>start()\<close>; \<open>tid\<close> is the handle that \<open>setTimeout\<close> returns. The timer itself and
  the time-boxed loop \<open>_work\<close> (which reads the clock) are outside the model.
\<close>

definition start :: "'w validator \<Rightarrow> nat \<Rightarrow> 'w validator" where
  "start v tid =
     (let v1 = (if timeoutId v \<noteq> None then stopWith v (Some WORKING) else v)
      in v1\<lparr>timeoutId := Some tid\<rparr>)"

text \<open>
  \<open>_erase\<close> deletes the five properties of the root and of every element below it
  (it descends through element children only).
\<close>

definition erased :: "node \<Rightarrow> path \<Rightarrow> noderef \<Rightarrow> bool" where
  "erased d r n =
     (case n of
        AttrRef _ _ \<Rightarrow> False
      | NodeRef p \<Rightarrow>
          length r \<le> length p \<and> drop (length p - length r) p = r \<and>
          (p = r \<or> (case node_at d p of Some m \<Rightarrow> isElement m | None \<Rightarrow> False)))"

definition erase :: "'w validator \<Rightarrow> 'w validator" where
  "erase v =
     v\<lparr>eventIndexProps := (\<lambda>n. if erased (document v) (rootNode v) n then (\<lambda>_. None) else eventIndexProps v n),
       wildcardProps := (\<lambda>n. if erased (document v) (rootNode v) n then None else wildcardProps v n)\<rparr>"

definition resetTo :: "('w, 'p) grammar \<Rightarrow> 'w validator \<Rightarrow> 'w validator" where
  "resetTo g v =
     emit ((erase v)\<lparr>validationStage := CONTENTS,
                     previousChild := None,
                     validationWalker := newWalker g,
                     validationEvents := [],
                     curEl := rootNode v,
                     partDone := 0,
                     errors := [],
                     walkerCache := (\<lambda>_. None),
                     walkerCacheMax := - 1\<rparr>)
          (ResetErrors 0)"

definition restartAt :: "('w, 'p) grammar \<Rightarrow> 'w validator \<Rightarrow> nat \<Rightarrow> 'w validator" where
  "restartAt g v tid =
     start (if \<not> restarting v then resetTo g (v\<lparr>restarting := True\<rparr>) else v) tid"

section \<open>Forced validation up to a location\<close>

text \<open>
  The loop at the end of \<open>_validateUpTo\<close>:
  \<^verbatim>\<open>while (this.getNodeProperty(toInspect, dataKey) === undefined) { this._cycle(); }\<close>
  It ignores what \<open>_cycle\<close> returns and may run forever; not returning is \<open>None\<close>.
\<close>

partial_function (option) validateLoop ::
  "('w, 'p) grammar \<Rightarrow> noderef \<Rightarrow> CustomNodeProperty \<Rightarrow> 'w validator \<Rightarrow> ('w validator \<times> (failure + unit)) option" where
  "validateLoop g toInspect dataKey v =
     (if getNodeProperty v toInspect dataKey \<noteq> None then Some (v, Inr ())
      else
        (case cycle g v of
           (v', Inl e) \<Rightarrow> Some (v', Inl e)
         | (v', Inr _) \<Rightarrow> validateLoop g toInspect dataKey v'))"

declare validateLoop.simps [code]

text \<open>
  \<open>previousElementSibling\<close> as the DOM defines it: elements and character data have it,
  a document type does not (\<open>undefined\<close>).
\<close>

definition previousElementSiblingOf :: "node \<Rightarrow> path \<Rightarrow> path option" where
  "previousElementSiblingOf d n =
     (case node_at d n of
        Some (DocumentType _) \<Rightarrow> None
      | Some (Document _) \<Rightarrow> None
      | _ \<Rightarrow> previousElementSibling d n)"

text \<open>
  The check that opens \<open>_validateUpTo\<close> and \<open>_getWalkerAt\<close> when \<open>attributes\<close> is set.
  Every DOM node has \<open>childNodes\<close>, an attribute node an empty one, so the test
  \<open>!container.childNodes\<close> never holds, and \<open>childNodes[index].nodeType\<close> on a missing
  child is a \<open>TypeError\<close>.
\<close>

definition attributesCheck :: "node \<Rightarrow> noderef \<Rightarrow> int \<Rightarrow> string \<Rightarrow> failure option" where
  "attributesCheck d container ix msg =
     (case container of
        AttrRef _ _ \<Rightarrow> Some TypeError
      | NodeRef c \<Rightarrow>
          (case childAt d c ix of
             None \<Rightarrow> Some TypeError
           | Some ch \<Rightarrow>
               (case node_at d ch of
                  Some (Element _ _ _) \<Rightarrow> None
                | _ \<Rightarrow> Some (Error msg))))"

text \<open>
  The first part of \<open>_validateUpTo\<close>: the node \<open>toInspect\<close> and the property
  \<open>dataKey\<close> that the loop waits for, \<open>None\<close> where the method returns at once (the
  root with index 0), or the exception thrown. A \<open>toInspect\<close> that is \<open>null\<close> or
  \<open>undefined\<close> makes \<open>getNodeProperty\<close> throw a \<open>TypeError\<close> before any step is taken.
\<close>

definition inspectionTarget ::
  "node \<Rightarrow> path \<Rightarrow> noderef \<Rightarrow> int \<Rightarrow> bool \<Rightarrow> failure + (noderef \<times> CustomNodeProperty) option" where
  "inspectionTarget d rt container ix attrs =
     (case (if attrs then attributesCheck d container ix
                 (''trying to validate after attributes but before the end of the start tag on a '' @
                  ''node which is not an element node'')
            else None) of
        Some e \<Rightarrow> Inl e
      | None \<Rightarrow>
          if container = NodeRef rt \<and> ix \<le> 0 then
            (if attrs then
               (case childAt d rt ix of
                  None \<Rightarrow> Inl TypeError
                | Some ch \<Rightarrow> Inr (Some (NodeRef ch, EventIndexAfterAttributes)))
             else if ix = 0 then Inr None
             else Inr (Some (container, EventIndexAfter)))
          else
            (case container of
               AttrRef el _ \<Rightarrow> Inr (Some (NodeRef el, EventIndexBeforeAttributes))
             | NodeRef c \<Rightarrow>
                 (case node_at d c of
                    None \<Rightarrow> Inl TypeError
                  | Some n \<Rightarrow>
                      if nodeType n = 3 then
                        (case previousElementSiblingOf d c of
                           Some prev \<Rightarrow> Inr (Some (NodeRef prev, EventIndexAfter))
                         | None \<Rightarrow>
                             (case c of
                                [] \<Rightarrow> Inl TypeError
                              | _ # par \<Rightarrow> Inr (Some (NodeRef par, EventIndexAfterStart))))
                      else if nodeType n = 1 \<or> nodeType n = 9 then
                        (case (case childAt d c ix of
                                 None \<Rightarrow> lastElementChild d c
                               | Some nd \<Rightarrow> previousElementSiblingOf d nd) of
                           Some prev \<Rightarrow> Inr (Some (NodeRef prev, EventIndexAfter))
                         | None \<Rightarrow>
                             if attrs then
                               (case childAt d c ix of
                                  None \<Rightarrow> Inl TypeError
                                | Some nd \<Rightarrow> Inr (Some (NodeRef nd, EventIndexAfterAttributes)))
                             else Inr (Some (NodeRef c, EventIndexAfterStart)))
                      else Inl (UnexpectedNodeType (nodeType n)))))"

definition validateUpTo ::
  "('w, 'p) grammar \<Rightarrow> 'w validator \<Rightarrow> noderef \<Rightarrow> int \<Rightarrow> bool \<Rightarrow> ('w validator \<times> (failure + unit)) option" where
  "validateUpTo g v container ix attrs =
     (case inspectionTarget (document v) (rootNode v) container ix attrs of
        Inl e \<Rightarrow> Some (v, Inl e)
      | Inr None \<Rightarrow> Some (v, Inr ())
      | Inr (Some (toInspect, dataKey)) \<Rightarrow> validateLoop g toInspect dataKey v)"

section \<open>The walker cache\<close>

text \<open>
  The backward scan \<^verbatim>\<open>while (!walker && --searchIx >= 0) walker = cache[searchIx]\<close>
  started at \<open>searchIx = n\<close>: the index found and its walker.
\<close>

fun scanCache :: "(int \<Rightarrow> 'w option) \<Rightarrow> nat \<Rightarrow> (int \<times> 'w) option" where
  "scanCache cache 0 = None"
| "scanCache cache (Suc n) =
     (case cache (int n) of
        Some w \<Rightarrow> Some (int n, w)
      | None \<Rightarrow> scanCache cache n)"

text \<open>
  The replay loop \<^verbatim>\<open>for (ix = searchIx; ix < eventIndex; ++ix) walker.fireEvent(events[ix])\<close>
  with \<open>n\<close> iterations left. Reading the log out of range gives \<open>undefined\<close>, which the
  grammar engine dereferences: a \<open>TypeError\<close>.
\<close>

fun replay :: "('w, 'p) grammar \<Rightarrow> event list \<Rightarrow> 'w \<Rightarrow> nat \<Rightarrow> int \<Rightarrow> failure + 'w" where
  "replay g evs w 0 ix = Inr w"
| "replay g evs w (Suc n) ix =
     (if 0 \<le> ix \<and> nat ix < length evs
      then replay g evs (fst (fireEvent g w (evs ! nat ix))) n (ix + 1)
      else Inl TypeError)"

text \<open>
  The first part of \<open>readyWalker\<close> after the direct lookup has missed: the index
  \<open>searchIx\<close> from which the replay starts and the walker it starts from, a cached
  walker or a new one at index 0.
\<close>

definition nearestSnapshot :: "('w, 'p) grammar \<Rightarrow> 'w validator \<Rightarrow> nat \<Rightarrow> int \<times> 'w" where
  "nearestSnapshot g v eventIndex =
     (let mx = walkerCacheMax v;
          found = (if int eventIndex \<ge> mx
                   then map_option (\<lambda>w. (mx, w)) (walkerCache v mx)
                   else scanCache (walkerCache v) eventIndex)
      in case found of None \<Rightarrow> (0, newWalker g) | Some s \<Rightarrow> s)"

definition readyWalker ::
  "('w, 'p) grammar \<Rightarrow> 'w validator \<Rightarrow> nat option \<Rightarrow> 'w validator \<times> (failure + 'w)" where
  "readyWalker g v eventIndex' =
     (case eventIndex' of
        None \<Rightarrow> (v, Inl EventIndexException)
      | Some eventIndex \<Rightarrow>
          (case walkerCache v (int eventIndex) of
             Some w \<Rightarrow> (v, Inr w)
           | None \<Rightarrow>
               (let searchIx = fst (nearestSnapshot g v eventIndex);
                    w0 = snd (nearestSnapshot g v eventIndex)
                in case replay g (validationEvents v) w0 (nat (int eventIndex - searchIx)) searchIx of
                     Inl e \<Rightarrow> (v, Inl e)
                   | Inr w \<Rightarrow>
                       if int eventIndex - searchIx \<ge> walkerCacheGap v
                       then (v\<lparr>walkerCache := (walkerCache v)(int eventIndex \<mapsto> w),
                               walkerCacheMax := max (int eventIndex) (walkerCacheMax v)\<rparr>, Inr w)
                       else (v, Inr w))))"

section \<open>Queries at a location\<close>

definition textData :: "node \<Rightarrow> string" where
  "textData n = (case n of Text s \<Rightarrow> s | _ \<Rightarrow> [])"

text \<open>
  \<open>_getWalkerAt\<close> from the point where \<open>_validateUpTo\<close> has returned: the event index
  of the location is read from the node properties, \<open>readyWalker\<close> produces the walker
  for it, and an attribute name or a text event is fired on a clone where the location
  calls for it.
\<close>

definition walkerAt ::
  "('w, 'p) grammar \<Rightarrow> 'w validator \<Rightarrow> noderef \<Rightarrow> int \<Rightarrow> bool \<Rightarrow> 'w validator \<times> (failure + 'w)" where
  "walkerAt g v container ix attrs =
     (if container = NodeRef (rootNode v) \<and> ix \<le> 0 \<and> \<not> attrs then
       (if ix = 0 then (v, Inr (newWalker g))
        else (v, Inr (validationWalker v)))
     else
       (case container of
          AttrRef el i \<Rightarrow>
            (case readyWalker g v (getNodeProperty v (NodeRef el) EventIndexBeforeAttributes) of
               (v2, Inl e) \<Rightarrow> (v2, Inl e)
             | (v2, Inr w) \<Rightarrow>
                 (case node_at (document v) el of
                    Some (Element _ as _) \<Rightarrow>
                      if i < length as then
                        (if \<not> (attrName (as ! i) = ''xmlns'' \<or> attrPrefix (as ! i) = Some ''xmlns'')
                         then
                           (let r = fireAttributeNameEvent g v2 w (AttrRef el i) (as ! i)
                            in (fst r, Inr (fst (snd r))))
                         else (v2, Inr w))
                      else (v2, Inl TypeError)
                  | _ \<Rightarrow> (v2, Inl TypeError)))
        | NodeRef c \<Rightarrow>
            (case node_at (document v) c of
               None \<Rightarrow> (v, Inl TypeError)
             | Some n \<Rightarrow>
                 if nodeType n = 3 then
                   (case (case previousElementSiblingOf (document v) c of
                            Some prev \<Rightarrow> Inr (getNodeProperty v (NodeRef prev) EventIndexAfter)
                          | None \<Rightarrow>
                              (case c of
                                 [] \<Rightarrow> Inl TypeError
                               | _ # par \<Rightarrow>
                                   Inr (getNodeProperty v (NodeRef par) EventIndexAfterStart))) of
                      Inl e \<Rightarrow> (v, Inl e)
                    | Inr eventIndex \<Rightarrow>
                        (case readyWalker g v eventIndex of
                           (v2, Inl e) \<Rightarrow> (v2, Inl e)
                         | (v2, Inr w) \<Rightarrow>
                             if ix > 0
                             then (v2, Inr (fst (fireEvent g w (TextEvent (textData n)))))
                             else (v2, Inr w)))
                 else if nodeType n = 1 \<or> nodeType n = 9 then
                   (let nd = childAt (document v) c ix;
                        prev = (if attrs then None
                                else (case nd of
                                        None \<Rightarrow> lastElementChild (document v) c
                                      | Some m \<Rightarrow> previousElementSiblingOf (document v) m));
                        eventIndex =
                          (if \<not> attrs then
                             (case prev of
                                Some pr \<Rightarrow> Inr (getNodeProperty v (NodeRef pr) EventIndexAfter)
                              | None \<Rightarrow> Inr (getNodeProperty v (NodeRef c) EventIndexAfterStart))
                           else
                             (case nd of
                                None \<Rightarrow> Inl TypeError
                              | Some m \<Rightarrow>
                                  Inr (getNodeProperty v (NodeRef m) EventIndexAfterAttributes)))
                    in case eventIndex of
                         Inl e \<Rightarrow> (v, Inl e)
                       | Inr ei \<Rightarrow>
                           (case readyWalker g v ei of
                              (v2, Inl e) \<Rightarrow> (v2, Inl e)
                            | (v2, Inr w) \<Rightarrow>
                                if \<not> attrs then
                                  (case (case nd of None \<Rightarrow> None | Some m \<Rightarrow> previousSibling m) of
                                     None \<Rightarrow> (v2, Inr w)
                                   | Some ps \<Rightarrow>
                                       if Some ps \<noteq> prev then
                                         (case node_at (document v) ps of
                                            Some (Text s) \<Rightarrow>
                                              (v2, Inr (fst (fireEvent g w (TextEvent s))))
                                          | _ \<Rightarrow> (v2, Inr w))
                                       else (v2, Inr w))
                                else (v2, Inr w)))
                 else (v, Inl (UnexpectedNodeType (nodeType n))))))"

definition getWalkerAt ::
  "('w, 'p) grammar \<Rightarrow> 'w validator \<Rightarrow> noderef \<Rightarrow> int \<Rightarrow> bool \<Rightarrow> ('w validator \<times> (failure + 'w)) option" where
  "getWalkerAt g v container ix attrs =
     (case (if attrs then attributesCheck (document v) container ix
                 (''trying to get a walker for attribute events on a '' @
                  ''node which is not an element node'')
            else None) of
        Some e \<Rightarrow> Some (v, Inl e)
      | None \<Rightarrow>
          (case validateUpTo g v container ix attrs of
             None \<Rightarrow> None
           | Some (v1, Inl e) \<Rightarrow> Some (v1, Inl e)
           | Some (v1, Inr _) \<Rightarrow> Some (walkerAt g v1 container ix attrs)))"

definition possibleAt ::
  "('w, 'p) grammar \<Rightarrow> 'w validator \<Rightarrow> noderef \<Rightarrow> int \<Rightarrow> bool \<Rightarrow> ('w validator \<times> (failure + 'p list)) option" where
  "possibleAt g v container ix attrs =
     (case getWalkerAt g v container ix attrs of
        None \<Rightarrow> None
      | Some (v1, Inl e) \<Rightarrow> Some (v1, Inl e)
      | Some (v1, Inr w) \<Rightarrow> Some (v1, Inr (possible g w)))"

section \<open>Speculative validation\<close>

text \<open>
  \<open>speculativelyValidateFragment\<close> builds a second validator over \<open>toParse\<close>. In the
  model \<open>toParse\<close> is a tree of its own, with its own property tables: this is what
  \<open>speculativelyValidate\<close> hands over, a fresh \<open>div\<close> holding deep clones. The result
  is the live validator's state and what the call returns (\<open>None\<close> for \<open>false\<close>).
\<close>

definition defaultOptions :: Options where
  "defaultOptions = Options None None None None"

definition speculativelyValidateFragment ::
  "('w, 'p) grammar \<Rightarrow> 'w validator \<Rightarrow> noderef \<Rightarrow> int \<Rightarrow> node \<Rightarrow>
   ('w validator \<times> (failure + ErrorData list option)) option" where
  "speculativelyValidateFragment g v container ix toParse =
     (if nodeType toParse \<noteq> 1 then Some (v, Inl (Error ''toParse is not an element''))
      else
        (case newValidator g toParse [] defaultOptions of
           Inl e \<Rightarrow> Some (v, Inl e)
         | Inr dup \<Rightarrow>
             (case getWalkerAt g v container ix False of
                None \<Rightarrow> None
              | Some (v1, Inl e) \<Rightarrow> Some (v1, Inl e)
              | Some (v1, Inr w) \<Rightarrow>
                  (case validateUpTo g (dup\<lparr>validationWalker := w\<rparr>) (NodeRef [])
                          (int (length (childNodes toParse))) False of
                     None \<Rightarrow> None
                   | Some (dup2, Inl e) \<Rightarrow> Some (v1, Inl e)
                   | Some (dup2, Inr _) \<Rightarrow>
                       Some (v1, Inr (if length (errors dup2) > 0 then Some (errors dup2) else None))))))"

text \<open>
  \<open>speculativelyValidate\<close>: \<open>toParse\<close> is one node or an array of nodes. The container's
  \<open>ownerDocument\<close> is \<open>null\<close> when the container is the document itself, and the DOM
  refuses to insert a document or a document type into the \<open>div\<close>.
\<close>

definition insertable :: "node \<Rightarrow> bool" where
  "insertable n = (case n of Document _ \<Rightarrow> False | DocumentType _ \<Rightarrow> False | _ \<Rightarrow> True)"

definition speculativelyValidate ::
  "('w, 'p) grammar \<Rightarrow> 'w validator \<Rightarrow> noderef \<Rightarrow> int \<Rightarrow> node + node list \<Rightarrow>
   ('w validator \<times> (failure + ErrorData list option)) option" where
  "speculativelyValidate g v container ix toParse =
     (if (case container of
            NodeRef c \<Rightarrow> (case node_at (document v) c of Some (Document _) \<Rightarrow> True | _ \<Rightarrow> False)
          | AttrRef _ _ \<Rightarrow> False)
      then Some (v, Inl TypeError)
      else
        (let clone = (case toParse of Inl n \<Rightarrow> [n] | Inr ns \<Rightarrow> ns)
         in if \<not> list_all insertable clone then Some (v, Inl (Error ''HierarchyRequestError''))
            else speculativelyValidateFragment g v container ix (Element ''div'' [] clone)))"

section \<open>Errors of a node\<close>

definition getErrorsFor ::
  "('w, 'p) grammar \<Rightarrow> 'w validator \<Rightarrow> noderef \<Rightarrow> ('w validator \<times> (failure + ErrorData list)) option" where
  "getErrorsFor g v n =
     (case n of
        AttrRef _ _ \<Rightarrow> Some (v, Inl (Error ''node without a parent!''))
      | NodeRef [] \<Rightarrow> Some (v, Inl (Error ''node without a parent!''))
      | NodeRef (i # parent) \<Rightarrow>
          (case validateUpTo g v (NodeRef parent) (int i + 1) False of
             None \<Rightarrow> None
           | Some (v1, Inl e) \<Rightarrow> Some (v1, Inl e)
           | Some (v1, Inr _) \<Rightarrow> Some (v1, Inr (filter (\<lambda>e. node e = Some n) (errors v1)))))"

section \<open>Runs of traversal steps\<close>

text \<open>
  \<open>cycles g n v\<close> calls \<open>_cycle\<close> up to \<open>n\<close> times in a row, as the loop of \<open>_work\<close>
  does, and stops early when a call returns \<open>false\<close> or throws. The result \<open>Inr True\<close>
  says that all \<open>n\<close> calls returned \<open>true\<close>.
\<close>

fun cycles :: "('w, 'p) grammar \<Rightarrow> nat \<Rightarrow> 'w validator \<Rightarrow> 'w step" where
  "cycles g 0 v = (v, Inr True)"
| "cycles g (Suc n) v =
     (let r = cycle g v
      in case snd r of
           Inl e \<Rightarrow> r
         | Inr again \<Rightarrow> if again then cycles g n (fst r) else r)"

section \<open>The events of a document, in document order\<close>

text \<open>
  What the specification says a validation pass does, written as a recursion over the tree
  rather than as a resumable state machine: the events of the start tag, the contents with
  runs of text joined into one event (comments do not break a run), the events of the end
  tag. The functions thread the walker and collect the grammar's errors; \<open>specNodes\<close>
  returns the text still pending after the last node, and \<open>None\<close> at a node that is
  neither element, text nor comment.
\<close>

type_synonym 'w acc = "'w \<times> verror list"

definition specFire :: "('w, 'p) grammar \<Rightarrow> 'w acc \<Rightarrow> event \<Rightarrow> 'w acc" where
  "specFire g a ev =
     (let r = fireEvent g (fst a) ev
      in (fst r, snd a @ (case snd r of None \<Rightarrow> [] | Some rs \<Rightarrow> rs)))"

text \<open>
  A namespace-declaration attribute is \<open>xmlns\<close> or \<open>xmlns:prefix\<close>. The specification
  fires \<open>definePrefix\<close> for each of them, and \<open>attributeName\<close> and \<open>attributeValue\<close>
  for each of the other attributes.
\<close>

definition isNamespaceDeclaration :: "string \<Rightarrow> bool" where
  "isNamespaceDeclaration n = (n = ''xmlns'' \<or> startsWith ''xmlns:'' n)"

fun specPrefixes :: "('w, 'p) grammar \<Rightarrow> 'w acc \<Rightarrow> attr list \<Rightarrow> 'w acc" where
  "specPrefixes g a [] = a"
| "specPrefixes g a (x # xs) =
     (if attrName x = ''xmlns'' then specPrefixes g (specFire g a (DefinePrefix [] (attrValue x))) xs
      else if startsWith ''xmlns:'' (attrName x)
      then specPrefixes g (specFire g a (DefinePrefix (drop 6 (attrName x)) (attrValue x))) xs
      else specPrefixes g a xs)"

fun specAttributes :: "('w, 'p) grammar \<Rightarrow> 'w acc \<Rightarrow> attr list \<Rightarrow> 'w acc" where
  "specAttributes g a [] = a"
| "specAttributes g a (x # xs) =
     (if isNamespaceDeclaration (attrName x) then specAttributes g a xs
      else
        (case resolveName g (fst a) (attrName x) True of
           None \<Rightarrow>
             specAttributes g
               (fst a, snd a @ [ValidationError (''cannot resolve attribute name '' @ attrName x)]) xs
         | Some en \<Rightarrow>
             specAttributes g
               (specFire g (specFire g a (AttributeName (enameNs en) (enameName en)))
                  (AttributeValue (attrValue x))) xs))"

definition specName :: "('w, 'p) grammar \<Rightarrow> 'w \<Rightarrow> string \<Rightarrow> EName" where
  "specName g w tag = (case resolveName g w tag False of None \<Rightarrow> EName [] tag | Some en \<Rightarrow> en)"

definition specStartTag :: "('w, 'p) grammar \<Rightarrow> 'w acc \<Rightarrow> string \<Rightarrow> attr list \<Rightarrow> 'w acc" where
  "specStartTag g a tag attrs =
     (let a1 = specPrefixes g (specFire g a EnterContext) attrs;
          a2 = (case resolveName g (fst a1) tag False of
                  None \<Rightarrow> (fst a1, snd a1 @ [ValidationError (''cannot resolve the name '' @ tag)])
                | Some _ \<Rightarrow> a1);
          en = specName g (fst a1) tag
      in specFire g
           (specAttributes g (specFire g a2 (EnterStartTag (enameNs en) (enameName en))) attrs)
           LeaveStartTag)"

definition specText :: "('w, 'p) grammar \<Rightarrow> 'w acc \<Rightarrow> string list \<Rightarrow> 'w acc" where
  "specText g a pending = (if pending = [] then a else specFire g a (TextEvent (concat pending)))"

definition specEndTag :: "('w, 'p) grammar \<Rightarrow> 'w acc \<Rightarrow> string \<Rightarrow> 'w acc" where
  "specEndTag g a tag =
     (let en = specName g (fst a) tag
      in specFire g (specFire g a (EndTag (enameNs en) (enameName en))) LeaveContext)"

fun specNodes :: "('w, 'p) grammar \<Rightarrow> 'w acc \<Rightarrow> node list \<Rightarrow> string list \<Rightarrow> ('w acc \<times> string list) option" where
  "specNodes g a [] pending = Some (a, pending)"
| "specNodes g a (Text s # ns) pending = specNodes g a ns (pending @ [s])"
| "specNodes g a (Comment _ # ns) pending = specNodes g a ns pending"
| "specNodes g a (Element tag attrs cs # ns) pending =
     (case specNodes g (specStartTag g (specText g a pending) tag attrs) cs [] of
        None \<Rightarrow> None
      | Some r \<Rightarrow> specNodes g (specEndTag g (specText g (fst r) (snd r)) tag) ns [])"
| "specNodes g a (_ # ns) pending = None"

definition specDocument :: "('w, 'p) grammar \<Rightarrow> node list \<Rightarrow> 'w acc option" where
  "specDocument g kids =
     (case specNodes g (newWalker g, []) kids [] of
        None \<Rightarrow> None
      | Some r \<Rightarrow>
          (let a = specText g (fst r) (snd r);
               e = walkerEnd g (fst a)
           in Some (fst e, snd a @ (case snd e of None \<Rightarrow> [] | Some rs \<Rightarrow> rs))))"

section \<open>Definitions used in the proofs\<close>

text \<open>
  The events that the traversal fires, as the same recursion over the tree. It differs from
  the specification's in the attributes left out: \<open>_fireAttributeEvents\<close> skips every
  attribute whose name starts with \<open>xmlns\<close>, with or without a colon after it.
\<close>

fun firedAttributes :: "('w, 'p) grammar \<Rightarrow> 'w acc \<Rightarrow> attr list \<Rightarrow> 'w acc" where
  "firedAttributes g a [] = a"
| "firedAttributes g a (x # xs) =
     (if startsWith ''xmlns'' (attrName x) then firedAttributes g a xs
      else
        (case resolveName g (fst a) (attrName x) True of
           None \<Rightarrow>
             firedAttributes g
               (fst a, snd a @ [ValidationError (''cannot resolve attribute name '' @ attrName x)]) xs
         | Some en \<Rightarrow>
             firedAttributes g
               (specFire g (specFire g a (AttributeName (enameNs en) (enameName en)))
                  (AttributeValue (attrValue x))) xs))"

definition firedStartTag :: "('w, 'p) grammar \<Rightarrow> 'w acc \<Rightarrow> string \<Rightarrow> attr list \<Rightarrow> 'w acc" where
  "firedStartTag g a tag attrs =
     (let a1 = specPrefixes g (specFire g a EnterContext) attrs;
          a2 = (case resolveName g (fst a1) tag False of
                  None \<Rightarrow> (fst a1, snd a1 @ [ValidationError (''cannot resolve the name '' @ tag)])
                | Some _ \<Rightarrow> a1);
          en = specName g (fst a1) tag
      in specFire g
           (firedAttributes g (specFire g a2 (EnterStartTag (enameNs en) (enameName en))) attrs)
           LeaveStartTag)"

fun firedNodes :: "('w, 'p) grammar \<Rightarrow> 'w acc \<Rightarrow> node list \<Rightarrow> string list \<Rightarrow> ('w acc \<times> string list) option" where
  "firedNodes g a [] pending = Some (a, pending)"
| "firedNodes g a (Text s # ns) pending = firedNodes g a ns (pending @ [s])"
| "firedNodes g a (Comment _ # ns) pending = firedNodes g a ns pending"
| "firedNodes g a (Element tag attrs cs # ns) pending =
     (case firedNodes g (firedStartTag g (specText g a pending) tag attrs) cs [] of
        None \<Rightarrow> None
      | Some r \<Rightarrow> firedNodes g (specEndTag g (specText g (fst r) (snd r)) tag) ns [])"
| "firedNodes g a (_ # ns) pending = None"

definition firedDocument :: "('w, 'p) grammar \<Rightarrow> node list \<Rightarrow> 'w acc option" where
  "firedDocument g kids =
     (case firedNodes g (newWalker g, []) kids [] of
        None \<Rightarrow> None
      | Some r \<Rightarrow>
          (let a = specText g (fst r) (snd r);
               e = walkerEnd g (fst a)
           in Some (fst e, snd a @ (case snd e of None \<Rightarrow> [] | Some rs \<Rightarrow> rs))))"

text \<open>
  A tree in which no attribute name starts with \<open>xmlns\<close> unless it is a namespace
  declaration: on such a tree the two recursions fire the same events.
\<close>

definition plainAttribute :: "attr \<Rightarrow> bool" where
  "plainAttribute a = (startsWith ''xmlns'' (attrName a) \<longrightarrow> isNamespaceDeclaration (attrName a))"

fun plainNames :: "node \<Rightarrow> bool" where
  "plainNames (Element _ attrs cs) = (list_all plainAttribute attrs \<and> list_all plainNames cs)"
| "plainNames _ = True"

text \<open>
  Two states that differ at most in the error list, the published notifications, the event
  log and the wildcard flags: what firing events and recording errors may change.
\<close>

definition sameControl :: "'w validator \<Rightarrow> 'w validator \<Rightarrow> bool" where
  "sameControl v v' =
     (cycleEntered v' = cycleEntered v \<and> timeoutId v' = timeoutId v \<and>
      restarting v' = restarting v \<and> validationWalker v' = validationWalker v \<and>
      workingState v' = workingState v \<and> partDone v' = partDone v \<and>
      validationStage v' = validationStage v \<and> previousChild v' = previousChild v \<and>
      validationStack v' = validationStack v \<and> curEl v' = curEl v \<and>
      walkerCache v' = walkerCache v \<and> walkerCacheMax v' = walkerCacheMax v \<and>
      walkerCacheGap v' = walkerCacheGap v \<and> rootNode v' = rootNode v \<and>
      document v' = document v \<and> eventIndexProps v' = eventIndexProps v \<and>
      timeout v' = timeout v \<and> maxTimespan v' = maxTimespan v \<and> prefix v' = prefix v)"

definition accOf :: "'w validator \<Rightarrow> 'w \<Rightarrow> 'w acc" where
  "accOf v w = (w, map error (errors v))"

text \<open>Event indices, once stored on a node, stay stored.\<close>

definition propsGrow :: "'w validator \<Rightarrow> 'w validator \<Rightarrow> bool" where
  "propsGrow v v' = (\<forall>n k. eventIndexProps v n k \<noteq> None \<longrightarrow> eventIndexProps v' n k \<noteq> None)"

definition scanOf :: "'w validator \<Rightarrow> scanResult" where
  "scanOf v = contentsScan (document v) (contentsStart v)"

fun countElements :: "node \<Rightarrow> nat" where
  "countElements (Element _ _ cs) = Suc (sum_list (map countElements cs))"
| "countElements _ = 0"

definition elems :: "node list \<Rightarrow> nat" where
  "elems ns = sum_list (map countElements ns)"

definition elementAt :: "node \<Rightarrow> path \<Rightarrow> bool" where
  "elementAt d q = (case node_at d q of Some m \<Rightarrow> isElement m | None \<Rightarrow> False)"

text \<open>A tree in which every node is an element, a text node or a comment.\<close>

fun validKinds :: "node \<Rightarrow> bool" where
  "validKinds (Element _ _ cs) = list_all validKinds cs"
| "validKinds (Text _) = True"
| "validKinds (Comment _) = True"
| "validKinds _ = False"

text \<open>
  The state between two steps while the children of \<open>p\<close> are being walked: no step is
  in flight, the stage is \<open>CONTENTS\<close>, \<open>p\<close> lies in the subtree of the root, and the
  progress stack is deep enough for the end tags still to come.
\<close>

definition atContents :: "'w validator \<Rightarrow> path \<Rightarrow> bool" where
  "atContents v p =
     (cycleEntered v = 0 \<and> validationStage v = CONTENTS \<and> curEl v = p \<and>
      (\<exists>rel. p = rel @ rootNode v) \<and>
      length p - length (rootNode v) < length (validationStack v))"

text \<open>
  \<open>traversed v v' p k res\<close>: from \<open>v\<close> the traversal has walked the children of \<open>p\<close>
  numbered \<open>k\<close> and up with all that lies below them, reaching \<open>v'\<close>; the walker and the
  errors are those of \<open>res\<close>, the text after the last element is still pending, and every
  element walked carries its four event indices.
\<close>

definition traversed :: "'w validator \<Rightarrow> 'w validator \<Rightarrow> path \<Rightarrow> nat \<Rightarrow> 'w acc \<times> string list \<Rightarrow> bool" where
  "traversed v v' p k res =
     (atContents v' p \<and> document v' = document v \<and> rootNode v' = rootNode v \<and>
      (\<exists>accN'. scanOf v' = Exhausted (snd res) accN') \<and>
      (validationWalker v', map error (errors v')) = fst res \<and>
      propsGrow v v' \<and>
      (\<forall>rel i key. k \<le> i \<and> elementAt (document v) (rel @ i # p)
         \<longrightarrow> eventIndexProps v' (NodeRef (rel @ i # p)) key \<noteq> None))"

definition sameSetup :: "'w validator \<Rightarrow> 'w validator \<Rightarrow> bool" where
  "sameSetup v v' =
     (document v' = document v \<and> rootNode v' = rootNode v \<and> walkerCache v' = walkerCache v \<and>
      walkerCacheMax v' = walkerCacheMax v \<and> walkerCacheGap v' = walkerCacheGap v \<and>
      timeout v' = timeout v \<and> maxTimespan v' = maxTimespan v \<and> prefix v' = prefix v \<and>
      propsGrow v v')"

definition isTextEvent :: "event \<Rightarrow> bool" where
  "isTextEvent ev = (case ev of TextEvent _ \<Rightarrow> True | _ \<Rightarrow> False)"

text \<open>The walker after a sequence of events has been fired on it, one after the other.\<close>

definition fireAll :: "('w, 'p) grammar \<Rightarrow> 'w \<Rightarrow> event list \<Rightarrow> 'w" where
  "fireAll g w evs = foldl (\<lambda>w ev. fst (fireEvent g w ev)) w evs"

text \<open>
  From a walker \<open>w0\<close> and a log \<open>evs0\<close>, some sequence of events has been fired that
  leads to the walker \<open>w\<close>, and the log of \<open>v\<close> has grown by these events, text events
  left out.
\<close>

definition appended :: "('w, 'p) grammar \<Rightarrow> event list \<Rightarrow> 'w \<Rightarrow> 'w validator \<Rightarrow> 'w \<Rightarrow> bool" where
  "appended g evs0 w0 v w =
     (\<exists>fired. w = fireAll g w0 fired \<and>
              validationEvents v = evs0 @ filter (\<lambda>e. \<not> isTextEvent e) fired)"

text \<open>The same validator with another value of the option \<open>walkerCacheGap\<close>.\<close>

definition withGap :: "int \<Rightarrow> 'w validator \<Rightarrow> 'w validator" where
  "withGap x v = v\<lparr>walkerCacheGap := x\<rparr>"

text \<open>
  Every walker in the cache is the walker that firing the first \<open>i\<close> events of the log
  on a new walker gives, \<open>i\<close> being the index it is cached under.
\<close>

definition cacheCoherent :: "('w, 'p) grammar \<Rightarrow> 'w validator \<Rightarrow> bool" where
  "cacheCoherent g v =
     (\<forall>i w. walkerCache v i = Some w \<longrightarrow>
        0 \<le> i \<and> nat i \<le> length (validationEvents v) \<and>
        w = fireAll g (newWalker g) (take (nat i) (validationEvents v)))"

section \<open>Example grammars and documents\<close>

text \<open>
  A grammar for \<open>a = (b, c)\<close> as a small automaton: the walker is the number of the state,
  a possible event is a pair of the event kind and an exact name, and nothing matches by
  wildcard. It reports an error and stays where it is on any tag it does not expect, and on
  text.
\<close>

definition exampleFire :: "nat \<Rightarrow> event \<Rightarrow> nat \<times> verror list option" where
  "exampleFire w ev =
     (case ev of
        EnterStartTag ns nm \<Rightarrow>
          if w = 0 \<and> nm = ''a'' then (1, None)
          else if w = 1 \<and> nm = ''b'' then (2, None)
          else if w = 3 \<and> nm = ''c'' then (4, None)
          else (w, Some [ValidationError (''tag not allowed here: '' @ nm)])
      | EndTag ns nm \<Rightarrow>
          if w = 2 \<and> nm = ''b'' then (3, None)
          else if w = 4 \<and> nm = ''c'' then (5, None)
          else if w = 5 \<and> nm = ''a'' then (6, None)
          else (w, Some [ValidationError (''unexpected end tag: '' @ nm)])
      | TextEvent s \<Rightarrow> (w, Some [ValidationError ''text not allowed here''])
      | _ \<Rightarrow> (w, None))"

definition examplePossible :: "nat \<Rightarrow> (string \<times> string) list" where
  "examplePossible w =
     (if w = 0 then [(''enterStartTag'', ''a'')]
      else if w = 1 then [(''enterStartTag'', ''b'')]
      else if w = 2 then [(''endTag'', ''b'')]
      else if w = 3 then [(''enterStartTag'', ''c'')]
      else if w = 4 then [(''endTag'', ''c'')]
      else if w = 5 then [(''endTag'', ''a'')]
      else [])"

definition exampleGrammar :: "(nat, string \<times> string) grammar" where
  "exampleGrammar =
     \<lparr> newWalker = 0,
       fireEvent = exampleFire,
       walkerEnd = (\<lambda>w. (w, if w = 6 then None else Some [ValidationError ''document ended early''])),
       possible = examplePossible,
       resolveName = (\<lambda>w n isAttribute. if CHR '':'' \<in> set n then None else Some (EName [] n)),
       evKind = fst,
       patMatch = (\<lambda>p ns nm. ns = [] \<and> nm = snd p),
       patWildcardMatch = (\<lambda>p ns nm. False) \<rparr>"

text \<open>A grammar that accepts everything; its walker is the list of the events fired on it.\<close>

definition recordingGrammar :: "(event list, string \<times> string) grammar" where
  "recordingGrammar =
     \<lparr> newWalker = [],
       fireEvent = (\<lambda>w ev. (w @ [ev], None)),
       walkerEnd = (\<lambda>w. (w, None)),
       possible = (\<lambda>w. []),
       resolveName = (\<lambda>w n isAttribute. Some (EName [] n)),
       evKind = fst,
       patMatch = (\<lambda>p ns nm. nm = snd p),
       patWildcardMatch = (\<lambda>p ns nm. False) \<rparr>"

definition abcDocument :: node where
  "abcDocument = Document [Element ''a'' [] [Element ''b'' [] [], Element ''c'' [] []]]"

definition acbDocument :: node where
  "acbDocument = Document [Element ''a'' [] [Element ''c'' [] [], Element ''b'' [] []]]"

definition textDocument :: node where
  "textDocument = Document [Element ''a'' [] [Text ''x'']]"

definition piDocument :: node where
  "piDocument = Document [ProcessingInstruction ''xml-stylesheet'' ''href=a.css'', Element ''a'' [] []]"

definition attrDocument :: node where
  "attrDocument = Document [Element ''a'' [Attr ''k'' ''1'' None] []]"

text \<open>
  A grammar for an element \<open>a\<close> that must carry the attribute \<open>xmlnsfoo\<close>, as an
  automaton; a start tag that ends without the attribute is an error.
\<close>

definition attributeFire :: "nat \<Rightarrow> event \<Rightarrow> nat \<times> verror list option" where
  "attributeFire w ev =
     (case ev of
        EnterStartTag ns nm \<Rightarrow>
          if w = 0 \<and> nm = ''a'' then (1, None)
          else (w, Some [ValidationError (''tag not allowed here: '' @ nm)])
      | AttributeName ns nm \<Rightarrow>
          if w = 1 \<and> nm = ''xmlnsfoo'' then (2, None)
          else (w, Some [ValidationError (''attribute not allowed here: '' @ nm)])
      | AttributeValue s \<Rightarrow>
          if w = 2 then (3, None) else (w, Some [ValidationError ''unexpected attribute value''])
      | LeaveStartTag \<Rightarrow>
          if w = 3 then (4, None)
          else if w = 1 then (4, Some [ValidationError ''attribute missing: xmlnsfoo''])
          else (w, Some [ValidationError ''unexpected end of start tag''])
      | EndTag ns nm \<Rightarrow>
          if w = 4 \<and> nm = ''a'' then (5, None)
          else (w, Some [ValidationError (''unexpected end tag: '' @ nm)])
      | TextEvent s \<Rightarrow> (w, Some [ValidationError ''text not allowed here''])
      | _ \<Rightarrow> (w, None))"

definition attributeGrammar :: "(nat, string \<times> string) grammar" where
  "attributeGrammar =
     \<lparr> newWalker = 0,
       fireEvent = attributeFire,
       walkerEnd = (\<lambda>w. (w, if w = 5 then None else Some [ValidationError ''document ended early''])),
       possible = (\<lambda>w. []),
       resolveName = (\<lambda>w n isAttribute. Some (EName [] n)),
       evKind = fst,
       patMatch = (\<lambda>p ns nm. ns = [] \<and> nm = snd p),
       patWildcardMatch = (\<lambda>p ns nm. False) \<rparr>"

definition xmlnsfooDocument :: node where
  "xmlnsfooDocument = Document [Element ''a'' [Attr ''xmlnsfoo'' ''z'' None] []]"



section \<open>Firing events changes the walker and the error list as the document order says\<close>

lemma sameControl_refl [simp]: "sameControl v v"
  by (simp add: sameControl_def)

lemma sameControl_trans: "sameControl a b \<Longrightarrow> sameControl b c \<Longrightarrow> sameControl a c"
  by (simp add: sameControl_def)

lemma sameControl_fields:
  assumes "sameControl v v'"
  shows "cycleEntered v' = cycleEntered v" 
    "timeoutId v' = timeoutId v" "restarting v' = restarting v" "validationWalker v' = validationWalker v"
    "workingState v' = workingState v" "partDone v' = partDone v" "validationStage v' = validationStage v"
    "previousChild v' = previousChild v" "validationStack v' = validationStack v" "curEl v' = curEl v"
    "walkerCache v' = walkerCache v" "walkerCacheMax v' = walkerCacheMax v" 
    "walkerCacheGap v' = walkerCacheGap v" "rootNode v' = rootNode v" "document v' = document v"
    "eventIndexProps v' = eventIndexProps v" "timeout v' = timeout v" "maxTimespan v' = maxTimespan v"
    "prefix v' = prefix v"
  using assms by (simp_all add: sameControl_def)

lemma processError_same: "sameControl v (processError v e)"
  by (simp add: sameControl_def processError_def emit_def)

lemma processError_errors: "errors (processError v e) = errors v @ [e]"
  by (simp add: processError_def emit_def)

lemmas processError_simps [simp] = sameControl_fields[OF processError_same] processError_errors

lemma processEventResult_same: "sameControl v (processEventResult v rs n ix)"
  by (induction rs arbitrary: v) (auto simp: sameControl_def)

lemma processEventResult_errors:
  "errors (processEventResult v rs n ix) = errors v @ map (\<lambda>r. ErrorData r n ix) rs"
  by (induction rs arbitrary: v) auto

lemmas processEventResult_simps [simp] = sameControl_fields[OF processEventResult_same]

lemma processEventResult_acc [simp]:
  "map error (errors (processEventResult v rs n ix)) = map error (errors v) @ rs"
  by (simp add: processEventResult_errors comp_def)

lemma fireAndProcessEvent_same: "sameControl v (fst (fireAndProcessEvent g v w ev el ix))"
  by (auto simp: fireAndProcessEvent_def Let_def sameControl_def split: option.splits)

lemmas fireAndProcessEvent_simps [simp] = sameControl_fields[OF fireAndProcessEvent_same]

lemma fireAndProcessEvent_acc [simp]:
  "accOf (fst (fireAndProcessEvent g v w ev el ix)) (snd (fireAndProcessEvent g v w ev el ix))
     = specFire g (accOf v w) ev"
  by (auto simp: fireAndProcessEvent_def Let_def accOf_def specFire_def split: option.splits)

lemma setPossibleDueToWildcard_same: "sameControl v (setPossibleDueToWildcard g v n w en ns nm)"
  by (auto simp: setPossibleDueToWildcard_def Let_def sameControl_def emit_def)

lemmas setPossibleDueToWildcard_simps [simp] = sameControl_fields[OF setPossibleDueToWildcard_same]

lemma setPossibleDueToWildcard_errors [simp]:
  "errors (setPossibleDueToWildcard g v n w en ns nm) = errors v"
  by (auto simp: setPossibleDueToWildcard_def Let_def emit_def)

lemma fireAttributeNameEvent_same: "sameControl v (fst (fireAttributeNameEvent g v w ref a))"
  by (auto simp: fireAttributeNameEvent_def Let_def sameControl_def split: option.splits)

lemmas fireAttributeNameEvent_simps [simp] = sameControl_fields[OF fireAttributeNameEvent_same]

lemma fireAttributeEvents_same: "sameControl v (fst (fireAttributeEvents g v w el as i))"
proof (induction as arbitrary: v w i)
  case Nil
  show ?case by simp
next
  case (Cons a as)
  show ?case
    by (auto simp: Let_def intro: sameControl_trans[OF fireAttributeNameEvent_same Cons]
        sameControl_trans[OF fireAttributeNameEvent_same sameControl_trans[OF fireAndProcessEvent_same Cons]] Cons)
qed

lemmas fireAttributeEvents_simps [simp] = sameControl_fields[OF fireAttributeEvents_same]

lemma startsWith_xmlns [simp]: "startsWith ''xmlns'' ''xmlns''"
  by (simp add: startsWith_def)

lemma accOf_sel [simp]: "fst (accOf v w) = w" "snd (accOf v w) = map error (errors v)"
  by (simp_all add: accOf_def)

lemma accOf_setPossibleDueToWildcard [simp]:
  "accOf (setPossibleDueToWildcard g v n w' en ns nm) w = accOf v w"
  by (simp add: accOf_def)

lemma fireAttributeNameEvent_fired:
  "snd (snd (fireAttributeNameEvent g v w ref a)) = (resolveName g w (attrName a) True \<noteq> None)"
  by (auto simp: fireAttributeNameEvent_def Let_def split: option.splits)

lemma fireAttributeNameEvent_acc:
  "accOf (fst (fireAttributeNameEvent g v w ref a)) (fst (snd (fireAttributeNameEvent g v w ref a)))
     = (case resolveName g w (attrName a) True of
          None \<Rightarrow> (w, map error (errors v) @ [ValidationError (''cannot resolve attribute name '' @ attrName a)])
        | Some en \<Rightarrow> specFire g (accOf v w) (AttributeName (enameNs en) (enameName en)))"
proof (cases "resolveName g w (attrName a) True")
  case None
  then show ?thesis by (simp add: fireAttributeNameEvent_def accOf_def)
next
  case (Some en)
  then show ?thesis by (simp add: fireAttributeNameEvent_def Let_def)
qed

lemma fireAttributeEvents_acc [simp]:
  "accOf (fst (fireAttributeEvents g v w el as i)) (snd (fireAttributeEvents g v w el as i))
     = firedAttributes g (accOf v w) as"
proof (induction as arbitrary: v w i)
  case Nil
  show ?case by simp
next
  case (Cons a as)
  show ?case
  proof (cases "attrName a = ''xmlns'' \<or> startsWith ''xmlns'' (attrName a)")
    case True
    then have "startsWith ''xmlns'' (attrName a)" by auto
    with True show ?thesis by (simp add: Cons)
  next
    case False
    let ?r = "fireAttributeNameEvent g v w (AttrRef el i) a"
    show ?thesis
    proof (cases "resolveName g w (attrName a) True")
      case None
      have acc: "accOf (fst ?r) (fst (snd ?r))
                  = (w, map error (errors v) @ [ValidationError (''cannot resolve attribute name '' @ attrName a)])"
        by (simp add: fireAttributeNameEvent_acc None)
      have "\<not> snd (snd ?r)" by (simp add: fireAttributeNameEvent_fired None)
      then show ?thesis using False None acc by (simp add: Let_def Cons)
    next
      case (Some en)
      have acc: "accOf (fst ?r) (fst (snd ?r)) = specFire g (accOf v w) (AttributeName (enameNs en) (enameName en))"
        by (simp add: fireAttributeNameEvent_acc Some)
      have "snd (snd ?r)" by (simp add: fireAttributeNameEvent_fired Some)
      then show ?thesis using False Some acc by (simp add: Let_def Cons)
    qed
  qed
qed

lemma definePrefixes_same: "sameControl v (fst (definePrefixes g v w el as))"
proof (induction as arbitrary: v w)
  case Nil
  show ?case by simp
next
  case (Cons a as)
  show ?case
    by (auto simp: Let_def intro: sameControl_trans[OF fireAndProcessEvent_same Cons] Cons)
qed

lemmas definePrefixes_simps [simp] = sameControl_fields[OF definePrefixes_same]

lemma definePrefixes_acc [simp]:
  "accOf (fst (definePrefixes g v w el as)) (snd (definePrefixes g v w el as))
     = specPrefixes g (accOf v w) as"
  by (induction as arbitrary: v w) (simp_all add: Let_def)

lemma flushText_same: "sameControl v (fst (flushText g v w acc accNode))"
  by (auto simp: flushText_def Let_def sameControl_def split: option.splits)

lemmas flushText_simps [simp] = sameControl_fields[OF flushText_same]

lemma flushText_acc [simp]:
  "accOf (fst (flushText g v w pend accNode)) (snd (flushText g v w pend accNode))
     = specText g (accOf v w) pend"
  by (auto simp: flushText_def Let_def accOf_def specText_def specFire_def split: option.splits)

declare node_at.simps(2) [simp del]

lemma propsGrow_refl [simp]: "propsGrow v v"
  by (simp add: propsGrow_def)

lemma propsGrow_trans: "propsGrow a b \<Longrightarrow> propsGrow b c \<Longrightarrow> propsGrow a c"
  by (simp add: propsGrow_def)

lemma propsGrow_same: "eventIndexProps v' = eventIndexProps v \<Longrightarrow> propsGrow v v'"
  by (simp add: propsGrow_def)

lemma propsGrow_set: "propsGrow v (setNodeProperty v n k x)"
  by (simp add: propsGrow_def setNodeProperty_def)

lemma fireAndProcessEvent_walker:
  "snd (fireAndProcessEvent g v w ev el ix) = fst (specFire g (w, map error (errors v)) ev)"
  by (auto simp: fireAndProcessEvent_def Let_def specFire_def split: option.splits)

lemma fireAndProcessEvent_errs:
  "map error (errors (fst (fireAndProcessEvent g v w ev el ix))) = snd (specFire g (w, map error (errors v)) ev)"
  by (auto simp: fireAndProcessEvent_def Let_def specFire_def split: option.splits)

lemma acc_pair: "accOf v w = a \<Longrightarrow> w = fst a \<and> map error (errors v) = snd a"
  by (auto simp: accOf_def)

lemma setNodeProperty_fields [simp]:
  "cycleEntered (setNodeProperty v n k x) = cycleEntered v"
  "errors (setNodeProperty v n k x) = errors v"
  "validationEvents (setNodeProperty v n k x) = validationEvents v"
  "validationWalker (setNodeProperty v n k x) = validationWalker v"
  "workingState (setNodeProperty v n k x) = workingState v"
  "partDone (setNodeProperty v n k x) = partDone v"
  "validationStage (setNodeProperty v n k x) = validationStage v"
  "previousChild (setNodeProperty v n k x) = previousChild v"
  "validationStack (setNodeProperty v n k x) = validationStack v"
  "curEl (setNodeProperty v n k x) = curEl v"
  "rootNode (setNodeProperty v n k x) = rootNode v"
  "document (setNodeProperty v n k x) = document v"
  "timeoutId (setNodeProperty v n k x) = timeoutId v"
  "emitted (setNodeProperty v n k x) = emitted v"
  "wildcardProps (setNodeProperty v n k x) = wildcardProps v"
  "walkerCache (setNodeProperty v n k x) = walkerCache v"
  "walkerCacheMax (setNodeProperty v n k x) = walkerCacheMax v"
  "walkerCacheGap (setNodeProperty v n k x) = walkerCacheGap v"
  "timeout (setNodeProperty v n k x) = timeout v"
  "maxTimespan (setNodeProperty v n k x) = maxTimespan v"
  "prefix (setNodeProperty v n k x) = prefix v"
  "restarting (setNodeProperty v n k x) = restarting v"
  by (simp_all add: setNodeProperty_def)

lemma setNodeProperty_props:
  "eventIndexProps (setNodeProperty v n k x) n' k' = (if n' = n \<and> k' = k then Some x else eventIndexProps v n' k')"
  by (simp add: setNodeProperty_def)

lemma setWorkingState_eq:
  "setWorkingState v s d =
     v\<lparr>workingState := s, partDone := d,
       emitted := emitted v @ (if workingState v \<noteq> s \<or> partDone v \<noteq> d then [StateUpdate s d] else [])\<rparr>"
  by (cases v) (auto simp: setWorkingState_def Let_def emit_def)

lemma accOf_upd [simp]:
  "accOf (setNodeProperty v n k x) w = accOf v w"
  "accOf (v\<lparr>validationStack := a1\<rparr>) w = accOf v w"
  "accOf (v\<lparr>validationStage := a2\<rparr>) w = accOf v w"
  "accOf (v\<lparr>validationWalker := a3\<rparr>) w = accOf v w"
  "accOf (v\<lparr>cycleEntered := a4\<rparr>) w = accOf v w"
  "accOf (v\<lparr>curEl := a5\<rparr>) w = accOf v w"
  "accOf (v\<lparr>previousChild := a6\<rparr>) w = accOf v w"
  "accOf (v\<lparr>partDone := a7\<rparr>) w = accOf v w"
  "accOf (v\<lparr>restarting := a8\<rparr>) w = accOf v w"
  "accOf (setWorkingState v s d) w = accOf v w"
  by (simp_all add: accOf_def setWorkingState_eq)

lemma accOf_processEventResult [simp]:
  "accOf (processEventResult v rs n ix) w = (w, snd (accOf v w) @ rs)"
  by (simp add: accOf_def)

lemma startTagStage_run:
  assumes el: "node_at (document v) (curEl v) = Some (Element tag attrs cs)"
    and cur: "curEl v = j # p"
  shows "snd (startTagStage g v portion) = Inr True"
    "cycleEntered (fst (startTagStage g v portion)) = cycleEntered v - 1"
    "validationStage (fst (startTagStage g v portion)) = CONTENTS"
    "curEl (fst (startTagStage g v portion)) = curEl v"
    "previousChild (fst (startTagStage g v portion)) = previousChild v"
    "rootNode (fst (startTagStage g v portion)) = rootNode v"
    "document (fst (startTagStage g v portion)) = document v"
    "validationStack (fst (startTagStage g v portion)) = ProgressState (partDone v) portion # validationStack v"
  using el cur by (simp_all add: startTagStage_def Let_def split: option.splits)

lemma startTagStage_props:
  assumes el: "node_at (document v) (curEl v) = Some (Element tag attrs cs)"
    and cur: "curEl v = j # p"
  shows "eventIndexProps (fst (startTagStage g v portion)) n k =
           (if n = NodeRef (curEl v) \<and> k \<in> {EventIndexBeforeAttributes, EventIndexAfterAttributes, EventIndexAfterStart}
            then eventIndexProps (fst (startTagStage g v portion)) n k else eventIndexProps v n k)"
    "eventIndexProps (fst (startTagStage g v portion)) (NodeRef (curEl v)) EventIndexBeforeAttributes \<noteq> None"
    "eventIndexProps (fst (startTagStage g v portion)) (NodeRef (curEl v)) EventIndexAfterAttributes \<noteq> None"
    "eventIndexProps (fst (startTagStage g v portion)) (NodeRef (curEl v)) EventIndexAfterStart \<noteq> None"
  using el cur by (simp_all add: startTagStage_def Let_def setNodeProperty_props split: option.splits)

lemma definePrefixes_walker:
  "snd (definePrefixes g v w el as) = fst (specPrefixes g (w, map error (errors v)) as)"
  using arg_cong[OF definePrefixes_acc, of fst g v w el as] by (simp add: accOf_def)

lemma definePrefixes_errs:
  "map error (errors (fst (definePrefixes g v w el as))) = snd (specPrefixes g (w, map error (errors v)) as)"
  using arg_cong[OF definePrefixes_acc, of snd g v w el as] by (simp add: accOf_def)

lemma fireAttributeEvents_walker:
  "snd (fireAttributeEvents g v w el as i) = fst (firedAttributes g (w, map error (errors v)) as)"
  using arg_cong[OF fireAttributeEvents_acc, of fst g v w el as i] by (simp add: accOf_def)

lemma fireAttributeEvents_errs:
  "map error (errors (fst (fireAttributeEvents g v w el as i))) = snd (firedAttributes g (w, map error (errors v)) as)"
  using arg_cong[OF fireAttributeEvents_acc, of snd g v w el as i] by (simp add: accOf_def)

lemma flushText_walker:
  "snd (flushText g v w pend accNode) = fst (specText g (w, map error (errors v)) pend)"
  using arg_cong[OF flushText_acc, of fst g v w pend accNode] by (simp add: accOf_def)

lemma flushText_errs:
  "map error (errors (fst (flushText g v w pend accNode))) = snd (specText g (w, map error (errors v)) pend)"
  using arg_cong[OF flushText_acc, of snd g v w pend accNode] by (simp add: accOf_def)

lemmas spec_components =
  fireAndProcessEvent_walker fireAndProcessEvent_errs definePrefixes_walker definePrefixes_errs
  fireAttributeEvents_walker fireAttributeEvents_errs flushText_walker flushText_errs

lemma startTagStage_acc:
  assumes el: "node_at (document v) (curEl v) = Some (Element tag attrs cs)"
    and cur: "curEl v = j # p"
  shows "(validationWalker (fst (startTagStage g v portion)),
          map error (errors (fst (startTagStage g v portion))))
         = firedStartTag g (validationWalker v, map error (errors v)) tag attrs"
  using el cur
  by (simp add: startTagStage_def firedStartTag_def specName_def Let_def spec_components
      split: option.splits)

lemma contentsStart_upd [simp]:
  "contentsStart (v\<lparr>restarting := a, cycleEntered := b\<rparr>) = contentsStart v"
  by (simp add: contentsStart_def split: option.splits)

lemma endTagStage_up:
  assumes el: "node_at (document v) (curEl v) = Some (Element tag attrs cs)"
    and cur: "curEl v = j # p"
    and nonroot: "curEl v \<noteq> rootNode v"
    and stack: "validationStack v = s1 # s2 # rest"
  shows "snd (endTagStage g v portion) = Inr True"
    "cycleEntered (fst (endTagStage g v portion)) = cycleEntered v - 1"
    "validationStage (fst (endTagStage g v portion)) = CONTENTS"
    "curEl (fst (endTagStage g v portion)) = p"
    "previousChild (fst (endTagStage g v portion)) = Some (j # p)"
    "rootNode (fst (endTagStage g v portion)) = rootNode v"
    "document (fst (endTagStage g v portion)) = document v"
    "length (validationStack (fst (endTagStage g v portion))) =
       (if p \<noteq> rootNode v then length (validationStack v) - 1 else length (validationStack v))"
    "workingState (fst (endTagStage g v portion)) = WORKING"
    "eventIndexProps (fst (endTagStage g v portion)) n k =
       (if n = NodeRef (j # p) \<and> k = EventIndexAfter
        then Some (length (validationEvents (fst (endTagStage g v portion))))
        else eventIndexProps v n k)"
  using el cur nonroot stack
  by (simp_all add: endTagStage_def Let_def setNodeProperty_props setWorkingState_eq)

lemma endTagStage_up_acc:
  assumes el: "node_at (document v) (curEl v) = Some (Element tag attrs cs)"
    and cur: "curEl v = j # p"
    and nonroot: "curEl v \<noteq> rootNode v"
    and stack: "validationStack v = s1 # s2 # rest"
  shows "(validationWalker (fst (endTagStage g v portion)),
          map error (errors (fst (endTagStage g v portion))))
         = specEndTag g (validationWalker v, map error (errors v)) tag"
  using el cur nonroot stack
  by (simp add: endTagStage_def specEndTag_def specName_def Let_def spec_components setWorkingState_eq)

lemma processError_events [simp]:
  "validationEvents (processError v e) = validationEvents v"
  "wildcardProps (processError v e) = wildcardProps v"
  by (simp_all add: processError_def emit_def)

lemma processEventResult_events [simp]:
  "validationEvents (processEventResult v rs n ix) = validationEvents v"
  "wildcardProps (processEventResult v rs n ix) = wildcardProps v"
  by (induction rs arbitrary: v) simp_all

lemma stopWith_Some:
  "stopWith v (Some s) = (setWorkingState (v\<lparr>timeoutId := None\<rparr>) s (partDone v))"
  by (simp add: stopWith_def)

lemma endTagStage_root:
  assumes root: "curEl v = rootNode v"
  shows "snd (endTagStage g v portion) = Inr False"
    "cycleEntered (fst (endTagStage g v portion)) = cycleEntered v - 1"
    "rootNode (fst (endTagStage g v portion)) = rootNode v"
    "document (fst (endTagStage g v portion)) = document v"
    "workingState (fst (endTagStage g v portion)) =
       (if errors (fst (endTagStage g v portion)) = [] then VALID else INVALID)"
    "validationWalker (fst (endTagStage g v portion)) = fst (walkerEnd g (validationWalker v))"
    "map error (errors (fst (endTagStage g v portion))) =
       map error (errors v) @ (case snd (walkerEnd g (validationWalker v)) of None \<Rightarrow> [] | Some rs \<Rightarrow> rs)"
    "eventIndexProps (fst (endTagStage g v portion)) n k =
       (if n = NodeRef (rootNode v) \<and> k = EventIndexAfter
        then Some (length (validationEvents v))
        else eventIndexProps v n k)"
  using root
  by (simp_all add: endTagStage_def Let_def setNodeProperty_props setWorkingState_eq stopWith_Some
      runDocumentValidation_def split: option.splits)

lemma cycle_descend:
  assumes c0: "cycleEntered v = 0" and st: "validationStage v = CONTENTS"
    and stk: "validationStack v \<noteq> []"
    and scan: "scanOf v = FoundElement (j # p) pend accN"
    and el: "node_at (document v) (j # p) = Some (Element tag attrs cs)"
  shows "snd (cycle g v) = Inr True"
    and "cycleEntered (fst (cycle g v)) = 0"
    and "validationStage (fst (cycle g v)) = CONTENTS"
    and "curEl (fst (cycle g v)) = j # p"
    and "previousChild (fst (cycle g v)) = None"
    and "rootNode (fst (cycle g v)) = rootNode v"
    and "document (fst (cycle g v)) = document v"
    and "length (validationStack (fst (cycle g v))) = Suc (length (validationStack v))"
    and "workingState (fst (cycle g v)) = workingState v"
    and "(validationWalker (fst (cycle g v)), map error (errors (fst (cycle g v))))
         = firedStartTag g (specText g (validationWalker v, map error (errors v)) pend) tag attrs"
    and "propsGrow v (fst (cycle g v))"
    and "eventIndexProps (fst (cycle g v)) (NodeRef (j # p)) EventIndexBeforeAttributes \<noteq> None"
    and "eventIndexProps (fst (cycle g v)) (NodeRef (j # p)) EventIndexAfterAttributes \<noteq> None"
    and "eventIndexProps (fst (cycle g v)) (NodeRef (j # p)) EventIndexAfterStart \<noteq> None"
proof -
  obtain fr frs where stack: "validationStack v = fr # frs" using stk by (cases "validationStack v") auto
  define v1 where "v1 = v\<lparr>restarting := False, cycleEntered := 1\<rparr>"
  define r where "r = flushText g v1 (validationWalker v1) pend accN"
  define X where "X = (fst r)\<lparr>validationWalker := snd r, curEl := j # p,
                         validationStage := START_TAG, previousChild := None\<rparr>"
  define portion' where "portion' = statePortion fr / of_nat (childElementCount (document v) (curEl v))"
  have scan1: "contentsScan (document v1) (contentsStart v1) = FoundElement (j # p) pend accN"
    using scan by (simp add: scanOf_def v1_def)
  have run: "cycle g v = startTagStage g X portion'"
    using scan1
    by (simp add: cycle_def contentsStage_def c0 st stack Let_def X_def r_def v1_def portion'_def)
  have elX: "node_at (document X) (curEl X) = Some (Element tag attrs cs)"
    by (simp add: X_def r_def v1_def el)
  have curX: "curEl X = j # p" by (simp add: X_def)
  note R = startTagStage_run[OF elX curX, of g portion']
  note P = startTagStage_props[OF elX curX, of g portion']
  note A = startTagStage_acc[OF elX curX, of g portion']
  have accX: "(validationWalker X, map error (errors X))
              = specText g (validationWalker v, map error (errors v)) pend"
    by (simp add: X_def r_def v1_def spec_components)
  show "snd (cycle g v) = Inr True" by (simp add: run R)
  show "cycleEntered (fst (cycle g v)) = 0" unfolding run R by (simp add: X_def r_def v1_def)
  show "validationStage (fst (cycle g v)) = CONTENTS" by (simp add: run R)
  show "curEl (fst (cycle g v)) = j # p" by (simp add: run R curX)
  show "previousChild (fst (cycle g v)) = None" unfolding run R by (simp add: X_def)
  show "rootNode (fst (cycle g v)) = rootNode v" unfolding run R by (simp add: X_def r_def v1_def)
  show "document (fst (cycle g v)) = document v" unfolding run R by (simp add: X_def r_def v1_def)
  show "length (validationStack (fst (cycle g v))) = Suc (length (validationStack v))"
    unfolding run R by (simp add: X_def r_def v1_def)
  show "workingState (fst (cycle g v)) = workingState v"
    using elX curX by (simp add: run startTagStage_def Let_def X_def r_def v1_def split: option.splits)
  show "(validationWalker (fst (cycle g v)), map error (errors (fst (cycle g v))))
         = firedStartTag g (specText g (validationWalker v, map error (errors v)) pend) tag attrs"
    by (simp only: run A accX)
  have propsX: "eventIndexProps X = eventIndexProps v" by (simp add: X_def r_def v1_def)
  show "propsGrow v (fst (cycle g v))"
    unfolding propsGrow_def run
    using P(1) propsX by (metis P(2,3,4) curX insertE singletonD)
  show "eventIndexProps (fst (cycle g v)) (NodeRef (j # p)) EventIndexBeforeAttributes \<noteq> None"
    using P(2) by (simp add: run curX)
  show "eventIndexProps (fst (cycle g v)) (NodeRef (j # p)) EventIndexAfterAttributes \<noteq> None"
    using P(3) by (simp add: run curX)
  show "eventIndexProps (fst (cycle g v)) (NodeRef (j # p)) EventIndexAfterStart \<noteq> None"
    using P(4) by (simp add: run curX)
qed

lemma cycle_ascend:
  assumes c0: "cycleEntered v = 0" and st: "validationStage v = CONTENTS"
    and scan: "scanOf v = Exhausted pend accN"
    and el: "node_at (document v) (curEl v) = Some (Element tag attrs cs)"
    and cur: "curEl v = j # p"
    and nonroot: "curEl v \<noteq> rootNode v"
    and stk: "2 \<le> length (validationStack v)"
  shows "snd (cycle g v) = Inr True"
    and "cycleEntered (fst (cycle g v)) = 0"
    and "validationStage (fst (cycle g v)) = CONTENTS"
    and "curEl (fst (cycle g v)) = p"
    and "previousChild (fst (cycle g v)) = Some (j # p)"
    and "rootNode (fst (cycle g v)) = rootNode v"
    and "document (fst (cycle g v)) = document v"
    and "length (validationStack (fst (cycle g v))) =
           (if p \<noteq> rootNode v then length (validationStack v) - 1 else length (validationStack v))"
    and "workingState (fst (cycle g v)) = WORKING"
    and "(validationWalker (fst (cycle g v)), map error (errors (fst (cycle g v))))
         = specEndTag g (specText g (validationWalker v, map error (errors v)) pend) tag"
    and "propsGrow v (fst (cycle g v))"
    and "eventIndexProps (fst (cycle g v)) (NodeRef (j # p)) EventIndexAfter \<noteq> None"
proof -
  obtain s1 s2 rest where stack: "validationStack v = s1 # s2 # rest"
    using stk by (cases "validationStack v"; cases "tl (validationStack v)") auto
  define v1 where "v1 = v\<lparr>restarting := False, cycleEntered := 1\<rparr>"
  define r where "r = flushText g v1 (validationWalker v1) pend accN"
  define X where "X = (fst r)\<lparr>validationWalker := snd r, validationStage := END_TAG\<rparr>"
  have scan1: "contentsScan (document v1) (contentsStart v1) = Exhausted pend accN"
    using scan by (simp add: scanOf_def v1_def)
  have run: "cycle g v = endTagStage g X (statePortion s1)"
    using scan1
    by (simp add: cycle_def contentsStage_def c0 st stack Let_def X_def r_def v1_def)
  have elX: "node_at (document X) (curEl X) = Some (Element tag attrs cs)"
    using el by (simp add: X_def r_def v1_def)
  have curX: "curEl X = j # p" using cur by (simp add: X_def r_def v1_def)
  have nrX: "curEl X \<noteq> rootNode X" using nonroot by (simp add: X_def r_def v1_def)
  have stX: "validationStack X = s1 # s2 # rest" using stack by (simp add: X_def r_def v1_def)
  note R = endTagStage_up[OF elX curX nrX stX, of g "statePortion s1"]
  note A = endTagStage_up_acc[OF elX curX nrX stX, of g "statePortion s1"]
  have accX: "(validationWalker X, map error (errors X))
              = specText g (validationWalker v, map error (errors v)) pend"
    by (simp add: X_def r_def v1_def spec_components)
  have propsX: "eventIndexProps X = eventIndexProps v" by (simp add: X_def r_def v1_def)
  have rootX: "rootNode X = rootNode v" by (simp add: X_def r_def v1_def)
  show "snd (cycle g v) = Inr True" by (simp add: run R)
  show "cycleEntered (fst (cycle g v)) = 0" unfolding run R by (simp add: X_def r_def v1_def)
  show "validationStage (fst (cycle g v)) = CONTENTS" by (simp add: run R)
  show "curEl (fst (cycle g v)) = p" by (simp add: run R)
  show "previousChild (fst (cycle g v)) = Some (j # p)" by (simp add: run R)
  show "rootNode (fst (cycle g v)) = rootNode v" unfolding run R by (simp add: rootX)
  show "document (fst (cycle g v)) = document v" unfolding run R by (simp add: X_def r_def v1_def)
  show "length (validationStack (fst (cycle g v))) =
           (if p \<noteq> rootNode v then length (validationStack v) - 1 else length (validationStack v))"
    unfolding run R rootX stX stack by simp
  show "workingState (fst (cycle g v)) = WORKING" by (simp add: run R)
  show "(validationWalker (fst (cycle g v)), map error (errors (fst (cycle g v))))
         = specEndTag g (specText g (validationWalker v, map error (errors v)) pend) tag"
    by (simp only: run A accX)
  show "propsGrow v (fst (cycle g v))"
    unfolding propsGrow_def run by (simp add: R(10) propsX)
  show "eventIndexProps (fst (cycle g v)) (NodeRef (j # p)) EventIndexAfter \<noteq> None"
    unfolding run by (simp add: R(10))
qed

lemma cycle_finish:
  assumes c0: "cycleEntered v = 0" and st: "validationStage v = CONTENTS"
    and stk: "validationStack v \<noteq> []"
    and scan: "scanOf v = Exhausted pend accN"
    and root: "curEl v = rootNode v"
  shows "snd (cycle g v) = Inr False"
    and "cycleEntered (fst (cycle g v)) = 0"
    and "rootNode (fst (cycle g v)) = rootNode v"
    and "document (fst (cycle g v)) = document v"
    and "workingState (fst (cycle g v)) = (if errors (fst (cycle g v)) = [] then VALID else INVALID)"
    and "validationWalker (fst (cycle g v))
           = fst (walkerEnd g (fst (specText g (validationWalker v, map error (errors v)) pend)))"
    and "map error (errors (fst (cycle g v)))
           = snd (specText g (validationWalker v, map error (errors v)) pend) @
             (case snd (walkerEnd g (fst (specText g (validationWalker v, map error (errors v)) pend))) of
                None \<Rightarrow> [] | Some rs \<Rightarrow> rs)"
    and "propsGrow v (fst (cycle g v))"
    and "eventIndexProps (fst (cycle g v)) (NodeRef (rootNode v)) EventIndexAfter \<noteq> None"
proof -
  obtain fr frs where stack: "validationStack v = fr # frs" using stk by (cases "validationStack v") auto
  define v1 where "v1 = v\<lparr>restarting := False, cycleEntered := 1\<rparr>"
  define r where "r = flushText g v1 (validationWalker v1) pend accN"
  define X where "X = (fst r)\<lparr>validationWalker := snd r, validationStage := END_TAG\<rparr>"
  have scan1: "contentsScan (document v1) (contentsStart v1) = Exhausted pend accN"
    using scan by (simp add: scanOf_def v1_def)
  have run: "cycle g v = endTagStage g X (statePortion fr)"
    using scan1
    by (simp add: cycle_def contentsStage_def c0 st stack Let_def X_def r_def v1_def)
  have rootX: "curEl X = rootNode X" using root by (simp add: X_def r_def v1_def)
  note R = endTagStage_root[OF rootX, of g "statePortion fr"]
  have accX: "(validationWalker X, map error (errors X))
              = specText g (validationWalker v, map error (errors v)) pend"
    by (simp add: X_def r_def v1_def spec_components)
  then have wX: "validationWalker X = fst (specText g (validationWalker v, map error (errors v)) pend)"
    and eX: "map error (errors X) = snd (specText g (validationWalker v, map error (errors v)) pend)"
    by (metis fst_conv, metis snd_conv)
  have propsX: "eventIndexProps X = eventIndexProps v" by (simp add: X_def r_def v1_def)
  have rX: "rootNode X = rootNode v" by (simp add: X_def r_def v1_def)
  show "snd (cycle g v) = Inr False" by (simp add: run R)
  show "cycleEntered (fst (cycle g v)) = 0" unfolding run R by (simp add: X_def r_def v1_def)
  show "rootNode (fst (cycle g v)) = rootNode v" unfolding run R by (simp add: rX)
  show "document (fst (cycle g v)) = document v" unfolding run R by (simp add: X_def r_def v1_def)
  show "workingState (fst (cycle g v)) = (if errors (fst (cycle g v)) = [] then VALID else INVALID)"
    unfolding run by (rule R(5))
  show "validationWalker (fst (cycle g v))
           = fst (walkerEnd g (fst (specText g (validationWalker v, map error (errors v)) pend)))"
    unfolding run R wX by simp
  show "map error (errors (fst (cycle g v)))
           = snd (specText g (validationWalker v, map error (errors v)) pend) @
             (case snd (walkerEnd g (fst (specText g (validationWalker v, map error (errors v)) pend))) of
                None \<Rightarrow> [] | Some rs \<Rightarrow> rs)"
    unfolding run R wX eX by simp
  show "propsGrow v (fst (cycle g v))"
    unfolding propsGrow_def run by (simp add: R(8) propsX)
  show "eventIndexProps (fst (cycle g v)) (NodeRef (rootNode v)) EventIndexAfter \<noteq> None"
    unfolding run by (simp add: R(8) rX)
qed

lemma elems_simps [simp]:
  "elems [] = 0"
  "elems (Element t a cs # ns) = Suc (elems cs + elems ns)"
  "elems (Text s # ns) = elems ns"
  "elems (Comment s # ns) = elems ns"
  by (simp_all add: elems_def)

lemma cycles_step:
  "snd (cycle g v) = Inr True \<Longrightarrow> cycles g (Suc n) v = cycles g n (fst (cycle g v))"
  by (simp add: Let_def)

lemma cycles_add:
  "cycles g m v = (v1, Inr True) \<Longrightarrow> cycles g (m + n) v = cycles g n v1"
proof (induction m arbitrary: v)
  case 0
  then show ?case by simp
next
  case (Suc m)
  show ?case
  proof (cases "snd (cycle g v)")
    case (Inl e)
    with Suc.prems show ?thesis by (simp add: Let_def)
  next
    case (Inr b)
    show ?thesis
    proof (cases b)
      case True
      with Inr Suc.prems have "cycles g m (fst (cycle g v)) = (v1, Inr True)" by (simp add: Let_def)
      from Suc.IH[OF this] Inr True show ?thesis by (simp add: Let_def)
    next
      case False
      with Inr Suc.prems show ?thesis by (simp add: Let_def)
    qed
  qed
qed

lemma drop_kids_child:
  assumes "drop k (kidsAt d p) = x # xs"
  shows "node_at d (k # p) = Some x" and "k < length (kidsAt d p)" and "drop (Suc k) (kidsAt d p) = xs"
proof -
  from assms have k: "k < length (kidsAt d p)" by (metis drop_all list.simps(3) not_le)
  then show "k < length (kidsAt d p)" .
  from assms k have x: "kidsAt d p ! k = x" by (metis Cons_nth_drop_Suc list.inject)
  from k obtain n where n: "node_at d p = Some n" "kidsAt d p = childNodes n"
    by (cases "node_at d p") (auto simp: kidsAt_def)
  with k x show "node_at d (k # p) = Some x" by (simp add: node_at.simps(2))
  from assms show "drop (Suc k) (kidsAt d p) = xs" by (metis drop_Suc list.sel(3) tl_drop)
qed

lemma kidsAt_element: "node_at d q = Some (Element t a cs) \<Longrightarrow> kidsAt d q = cs"
  by (simp add: kidsAt_def)

lemma node_at_below_leaf:
  "node_at d q = Some m \<Longrightarrow> childNodes m = [] \<Longrightarrow> rel \<noteq> [] \<Longrightarrow> node_at d (rel @ q) = None"
proof (induction rel)
  case Nil
  then show ?case by simp
next
  case (Cons i rel)
  show ?case
  proof (cases "rel = []")
    case True
    with Cons.prems show ?thesis by (simp add: node_at.simps(2))
  next
    case False
    with Cons have "node_at d (rel @ q) = None" by simp
    then show ?thesis by (simp add: node_at.simps(2))
  qed
qed

lemma scan_first:
  "previousChild v = None \<Longrightarrow> curEl v = q \<Longrightarrow>
   scanOf v = contentsLoop (kidsAt (document v) q) q 0 [] None"
  by (simp add: scanOf_def contentsStart_def firstChild_def contentsScan_def)

lemma scan_next:
  "previousChild v = Some (k # p) \<Longrightarrow>
   scanOf v = contentsLoop (drop (Suc k) (kidsAt (document v) p)) p (Suc k) [] None"
  by (simp add: scanOf_def contentsStart_def nextSibling_def contentsScan_def)

lemma node_at_append_None: "node_at d q = None \<Longrightarrow> node_at d (rel @ q) = None"
  by (induction rel) (simp_all add: node_at.simps(2))

lemma node_at_beyond: "length (kidsAt d p) \<le> i \<Longrightarrow> node_at d (i # p) = None"
  by (cases "node_at d p") (auto simp: kidsAt_def node_at.simps(2))

lemma traversed_nil:
  assumes "atContents v p" and "drop k (kidsAt (document v) p) = []"
    and "scanOf v = Exhausted pend accN" and "(validationWalker v, map error (errors v)) = a"
  shows "traversed v v p k (a, pend)"
proof -
  have "\<not> elementAt (document v) (rel @ i # p)" if "k \<le> i" for rel i
  proof -
    from assms(2) that have "length (kidsAt (document v) p) \<le> i" by simp
    then have "node_at (document v) (rel @ i # p) = None"
      by (intro node_at_append_None node_at_beyond)
    then show ?thesis by (simp add: elementAt_def)
  qed
  with assms show ?thesis by (auto simp: traversed_def)
qed

lemma traversed_skip:
  assumes "traversed v v' p (Suc k) res" and "node_at (document v) (k # p) = Some m"
    and "\<not> isElement m" and "childNodes m = []"
  shows "traversed v v' p k res"
proof -
  have "\<not> elementAt (document v) (rel @ k # p)" for rel
  proof (cases "rel = []")
    case True
    with assms(2,3) show ?thesis by (simp add: elementAt_def)
  next
    case False
    from node_at_below_leaf[OF assms(2) assms(4) False] show ?thesis by (simp add: elementAt_def)
  qed
  then have "Suc k \<le> i" if "k \<le> i" "elementAt (document v) (rel @ i # p)" for rel i
    using that by (cases "i = k") auto
  with assms(1) show ?thesis unfolding traversed_def by blast
qed

lemma traversed_element:
  assumes at: "atContents v p"
    and kids: "drop k (kidsAt (document v) p) = Element tag attrs cs # ns"
    and scan: "scanOf v = FoundElement (k # p) pend accN"
    and acc: "(validationWalker v, map error (errors v)) = a"
    and IH1: "\<And>v1. atContents v1 (k # p) \<Longrightarrow> document v1 = document v \<Longrightarrow>
        scanOf v1 = contentsLoop cs (k # p) 0 [] None \<Longrightarrow>
        (validationWalker v1, map error (errors v1)) = firedStartTag g (specText g a pend) tag attrs \<Longrightarrow>
        \<exists>v2. cycles g (2 * elems cs) v1 = (v2, Inr True) \<and> traversed v1 v2 (k # p) 0 rc"
    and IH2: "\<And>v3. atContents v3 p \<Longrightarrow> document v3 = document v \<Longrightarrow>
        scanOf v3 = contentsLoop ns p (Suc k) [] None \<Longrightarrow>
        (validationWalker v3, map error (errors v3)) = specEndTag g (specText g (fst rc) (snd rc)) tag \<Longrightarrow>
        \<exists>v4. cycles g (2 * elems ns) v3 = (v4, Inr True) \<and> traversed v3 v4 p (Suc k) res"
  shows "\<exists>v'. cycles g (2 * elems (Element tag attrs cs # ns)) v = (v', Inr True) \<and> traversed v v' p k res"
proof -
  note child = drop_kids_child[OF kids]
  from at have c0: "cycleEntered v = 0" and st: "validationStage v = CONTENTS" and cur: "curEl v = p"
    and stk: "length p - length (rootNode v) < length (validationStack v)"
    by (simp_all add: atContents_def)
  from at obtain rel0 where rel0: "p = rel0 @ rootNode v" by (auto simp: atContents_def)
  from stk have stk0: "validationStack v \<noteq> []" by auto
  define v1 where "v1 = fst (cycle g v)"
  note D = cycle_descend[OF c0 st stk0 scan child(1), of g, folded v1_def]
  have at1: "atContents v1 (k # p)"
    unfolding atContents_def using D(2,3,4,6,8) stk rel0 by auto
  have kids1: "kidsAt (document v1) (k # p) = cs"
    using child(1) D(7) by (simp add: kidsAt_element)
  have scan1: "scanOf v1 = contentsLoop cs (k # p) 0 [] None"
    using scan_first[OF D(5) D(4)] kids1 by simp
  have acc1: "(validationWalker v1, map error (errors v1)) = firedStartTag g (specText g a pend) tag attrs"
    using D(10) acc by simp
  from IH1[OF at1 D(7) scan1 acc1] obtain v2
    where run2: "cycles g (2 * elems cs) v1 = (v2, Inr True)" and tr2: "traversed v1 v2 (k # p) 0 rc"
    by blast
  from tr2 have at2: "atContents v2 (k # p)" and doc2: "document v2 = document v1"
    and root2: "rootNode v2 = rootNode v1"
    and acc2: "(validationWalker v2, map error (errors v2)) = fst rc"
    and grow2: "propsGrow v1 v2"
    and below2: "\<And>rel i key. elementAt (document v1) (rel @ i # k # p)
                   \<Longrightarrow> eventIndexProps v2 (NodeRef (rel @ i # k # p)) key \<noteq> None"
    by (simp_all add: traversed_def)
  from tr2 obtain accN2 where scan2: "scanOf v2 = Exhausted (snd rc) accN2"
    by (auto simp: traversed_def)
  from at2 have c2: "cycleEntered v2 = 0" and st2: "validationStage v2 = CONTENTS"
    and cur2: "curEl v2 = k # p"
    and stk2: "length (k # p) - length (rootNode v2) < length (validationStack v2)"
    by (simp_all add: atContents_def)
  have el2: "node_at (document v2) (curEl v2) = Some (Element tag attrs cs)"
    using child(1) doc2 D(7) cur2 by simp
  have rootv2: "rootNode v2 = rootNode v" using root2 D(6) by simp
  have nonroot2: "curEl v2 \<noteq> rootNode v2"
    using cur2 rootv2 rel0 by (metis append_Cons append_self_conv2 list.distinct(1))
  have two: "2 \<le> length (validationStack v2)"
    using stk2 rootv2 rel0 by simp
  define v3 where "v3 = fst (cycle g v2)"
  note A = cycle_ascend[OF c2 st2 scan2 el2 cur2 nonroot2 two, of g, folded v3_def]
  have doc3: "document v3 = document v" using A(7) doc2 D(7) by simp
  have root3: "rootNode v3 = rootNode v" using A(6) rootv2 by simp
  have at3: "atContents v3 p"
    unfolding atContents_def using A(2,3,4,8) root3 rootv2 stk2 rel0 by auto
  have scan3: "scanOf v3 = contentsLoop ns p (Suc k) [] None"
    using scan_next[OF A(5)] child(3) doc3 by simp
  have acc3: "(validationWalker v3, map error (errors v3)) = specEndTag g (specText g (fst rc) (snd rc)) tag"
    using A(10) acc2 by simp
  from IH2[OF at3 doc3 scan3 acc3] obtain v4
    where run4: "cycles g (2 * elems ns) v3 = (v4, Inr True)" and tr4: "traversed v3 v4 p (Suc k) res"
    by blast
  have run: "cycles g (2 * elems (Element tag attrs cs # ns)) v = (v4, Inr True)"
  proof -
    have "2 * elems (Element tag attrs cs # ns) = Suc (2 * elems cs + Suc (2 * elems ns))" by simp
    moreover have "cycles g (Suc (2 * elems cs + Suc (2 * elems ns))) v
                   = cycles g (2 * elems cs + Suc (2 * elems ns)) v1"
      using cycles_step[OF D(1)[unfolded v1_def]] by (simp add: v1_def)
    moreover have "cycles g (2 * elems cs + Suc (2 * elems ns)) v1 = cycles g (Suc (2 * elems ns)) v2"
      by (rule cycles_add[OF run2])
    moreover have "cycles g (Suc (2 * elems ns)) v2 = cycles g (2 * elems ns) v3"
      using cycles_step[OF A(1)[unfolded v3_def]] by (simp add: v3_def)
    ultimately show ?thesis using run4 by simp
  qed
  from tr4 have at4: "atContents v4 p" and doc4: "document v4 = document v3"
    and root4: "rootNode v4 = rootNode v3"
    and acc4: "(validationWalker v4, map error (errors v4)) = fst res"
    and grow4: "propsGrow v3 v4"
    and below4: "\<And>rel i key. Suc k \<le> i \<Longrightarrow> elementAt (document v3) (rel @ i # p)
                   \<Longrightarrow> eventIndexProps v4 (NodeRef (rel @ i # p)) key \<noteq> None"
    and scan4: "\<exists>accN'. scanOf v4 = Exhausted (snd res) accN'"
    by (simp_all add: traversed_def)
  have grow34: "propsGrow v2 v4" using propsGrow_trans[OF A(11) grow4] .
  have grow14: "propsGrow v1 v4" using propsGrow_trans[OF grow2 grow34] .
  have grow04: "propsGrow v v4" using propsGrow_trans[OF D(11) grow14] .
  have self: "eventIndexProps v4 (NodeRef (k # p)) key \<noteq> None" for key
  proof (cases key)
    case EventIndexAfter
    with A(12) grow4 show ?thesis by (simp add: propsGrow_def)
  next
    case EventIndexAfterStart
    with D(14) grow14 show ?thesis by (simp add: propsGrow_def)
  next
    case EventIndexBeforeAttributes
    with D(12) grow14 show ?thesis by (simp add: propsGrow_def)
  next
    case EventIndexAfterAttributes
    with D(13) grow14 show ?thesis by (simp add: propsGrow_def)
  qed
  have elements: "eventIndexProps v4 (NodeRef (rel @ i # p)) key \<noteq> None"
    if "k \<le> i" and el: "elementAt (document v) (rel @ i # p)" for rel i key
  proof (cases "i = k")
    case False
    with that have "Suc k \<le> i" by simp
    from below4[OF this] el doc3 show ?thesis by simp
  next
    case True
    show ?thesis
    proof (cases rel rule: rev_cases)
      case Nil
      with True self show ?thesis by simp
    next
      case (snoc rel' i')
      with el True have "elementAt (document v1) (rel' @ i' # k # p)" by (simp add: D(7))
      from below2[OF this] grow34 snoc True show ?thesis by (simp add: propsGrow_def)
    qed
  qed
  have "traversed v v4 p k res"
    unfolding traversed_def using at4 doc4 doc3 root4 root3 scan4 acc4 grow04 elements by simp
  with run show ?thesis by blast
qed

lemma traverse_forest:
  "firedNodes g a rest pend = Some res \<Longrightarrow> atContents v p \<Longrightarrow>
   drop k (kidsAt (document v) p) = rest \<Longrightarrow> scanOf v = contentsLoop rest p k pend accN \<Longrightarrow>
   (validationWalker v, map error (errors v)) = a \<Longrightarrow>
   \<exists>v'. cycles g (2 * elems rest) v = (v', Inr True) \<and> traversed v v' p k res"
proof (induction g a rest pend arbitrary: res v p k accN rule: firedNodes.induct)
  case (1 g a pending)
  then have "traversed v v p k res" using traversed_nil[of v p k pending accN a] by auto
  then show ?case by simp
next
  case (2 g a s ns pending)
  note child = drop_kids_child[OF "2.prems"(3)]
  have "\<exists>v'. cycles g (2 * elems ns) v = (v', Inr True) \<and> traversed v v' p (Suc k) res"
    using "2.prems" child(3) by (intro "2.IH") auto
  then obtain v' where "cycles g (2 * elems ns) v = (v', Inr True)" "traversed v v' p (Suc k) res"
    by blast
  with traversed_skip[OF this(2) child(1)] show ?case by auto
next
  case (3 g a c ns pending)
  note child = drop_kids_child[OF "3.prems"(3)]
  have "\<exists>v'. cycles g (2 * elems ns) v = (v', Inr True) \<and> traversed v v' p (Suc k) res"
    using "3.prems" child(3) by (intro "3.IH") auto
  then obtain v' where "cycles g (2 * elems ns) v = (v', Inr True)" "traversed v v' p (Suc k) res"
    by blast
  with traversed_skip[OF this(2) child(1)] show ?case by auto
next
  case (4 g a tag attrs cs ns pending)
  from "4.prems"(1) obtain rc
    where rc: "firedNodes g (firedStartTag g (specText g a pending) tag attrs) cs [] = Some rc"
      and rest: "firedNodes g (specEndTag g (specText g (fst rc) (snd rc)) tag) ns [] = Some res"
    by (auto split: option.splits)
  note child = drop_kids_child[OF "4.prems"(3)]
  have scan: "scanOf v = FoundElement (k # p) pending accN" using "4.prems"(4) by simp
  show ?case
  proof (rule traversed_element[OF "4.prems"(2) "4.prems"(3) scan "4.prems"(5), where rc = rc])
    fix v1 :: "'a validator"
    assume a1: "atContents v1 (k # p)" and d1: "document v1 = document v"
      and s1: "scanOf v1 = contentsLoop cs (k # p) 0 [] None"
      and c1: "(validationWalker v1, map error (errors v1)) = firedStartTag g (specText g a pending) tag attrs"
    have "drop 0 (kidsAt (document v1) (k # p)) = cs" using child(1) d1 by (simp add: kidsAt_element)
    from "4.IH"(1)[OF rc a1 this s1 c1]
    show "\<exists>v2. cycles g (2 * elems cs) v1 = (v2, Inr True) \<and> traversed v1 v2 (k # p) 0 rc" .
  next
    fix v3 :: "'a validator"
    assume a3: "atContents v3 p" and d3: "document v3 = document v"
      and s3: "scanOf v3 = contentsLoop ns p (Suc k) [] None"
      and c3: "(validationWalker v3, map error (errors v3)) = specEndTag g (specText g (fst rc) (snd rc)) tag"
    have "drop (Suc k) (kidsAt (document v3) p) = ns" using child(3) d3 by simp
    from "4.IH"(2)[OF rc rest a3 this s3 c3]
    show "\<exists>v4. cycles g (2 * elems ns) v3 = (v4, Inr True) \<and> traversed v3 v4 p (Suc k) res" .
  qed
qed simp_all

lemma cycles_last:
  "snd (cycle g v) = Inr False \<Longrightarrow> cycles g (Suc n) v = (fst (cycle g v), Inr False)"
  by (cases "cycle g v") (simp add: Let_def)

lemma run_from_root:
  assumes at: "atContents v r" and root: "rootNode v = r" and prev: "previousChild v = None"
    and spec: "firedNodes g (validationWalker v, map error (errors v)) (kidsAt (document v) r) [] = Some res"
  shows "\<exists>v'. cycles g (Suc (2 * elems (kidsAt (document v) r))) v = (v', Inr False) \<and>
           document v' = document v \<and> rootNode v' = r \<and> cycleEntered v' = 0 \<and>
           validationWalker v' = fst (walkerEnd g (fst (specText g (fst res) (snd res)))) \<and>
           map error (errors v') =
             snd (specText g (fst res) (snd res)) @
             (case snd (walkerEnd g (fst (specText g (fst res) (snd res)))) of
                None \<Rightarrow> [] | Some rs \<Rightarrow> rs) \<and>
           workingState v' = (if errors v' = [] then VALID else INVALID) \<and>
           propsGrow v v' \<and>
           (\<forall>rel i key. elementAt (document v) (rel @ i # r)
              \<longrightarrow> eventIndexProps v' (NodeRef (rel @ i # r)) key \<noteq> None) \<and>
           eventIndexProps v' (NodeRef r) EventIndexAfter \<noteq> None"
proof -
  from at have cur: "curEl v = r" by (simp add: atContents_def)
  have scan: "scanOf v = contentsLoop (kidsAt (document v) r) r 0 [] None"
    by (rule scan_first[OF prev cur])
  have "drop 0 (kidsAt (document v) r) = kidsAt (document v) r" by simp
  from traverse_forest[OF spec at this scan refl] obtain v1
    where run1: "cycles g (2 * elems (kidsAt (document v) r)) v = (v1, Inr True)"
      and tr: "traversed v v1 r 0 res" by blast
  from tr have at1: "atContents v1 r" and doc1: "document v1 = document v"
    and root1: "rootNode v1 = rootNode v"
    and acc1: "(validationWalker v1, map error (errors v1)) = fst res"
    and grow1: "propsGrow v v1"
    and below1: "\<And>rel i key. elementAt (document v) (rel @ i # r)
                   \<Longrightarrow> eventIndexProps v1 (NodeRef (rel @ i # r)) key \<noteq> None"
    by (simp_all add: traversed_def)
  from tr obtain accN1 where scan1: "scanOf v1 = Exhausted (snd res) accN1"
    by (auto simp: traversed_def)
  from at1 have c1: "cycleEntered v1 = 0" and st1: "validationStage v1 = CONTENTS"
    and cur1: "curEl v1 = rootNode v1" and stk1: "validationStack v1 \<noteq> []"
    using root root1 by (auto simp: atContents_def)
  define v' where "v' = fst (cycle g v1)"
  note F = cycle_finish[OF c1 st1 stk1 scan1 cur1, of g, folded v'_def]
  have acc1': "(validationWalker v1, map error (errors v1)) = (fst (fst res), snd (fst res))"
    using acc1 by simp
  have run: "cycles g (Suc (2 * elems (kidsAt (document v) r))) v = (v', Inr False)"
  proof -
    have "cycles g (2 * elems (kidsAt (document v) r) + 1) v = cycles g 1 v1"
      by (rule cycles_add[OF run1])
    also have "\<dots> = (v', Inr False)"
      using cycles_last[OF F(1)[unfolded v'_def], of 0] by (simp add: v'_def)
    finally show ?thesis by simp
  qed
  have grow: "propsGrow v v'" by (rule propsGrow_trans[OF grow1 F(8)])
  have below: "eventIndexProps v' (NodeRef (rel @ i # r)) key \<noteq> None"
    if "elementAt (document v) (rel @ i # r)" for rel i key
    using below1[OF that] F(8) by (simp add: propsGrow_def)
  show ?thesis
    using run F(2,3,4,5,6,7,9) doc1 root1 root grow below acc1 by (intro exI[of _ v']) simp
qed

lemma initialState_fields [simp]:
  "cycleEntered (initialState g d r opts) = 0"
  "validationStage (initialState g d r opts) = CONTENTS"
  "curEl (initialState g d r opts) = r"
  "rootNode (initialState g d r opts) = r"
  "document (initialState g d r opts) = d"
  "previousChild (initialState g d r opts) = None"
  "validationStack (initialState g d r opts) = [ProgressState 0 1]"
  "validationWalker (initialState g d r opts) = newWalker g"
  "errors (initialState g d r opts) = []"
  "validationEvents (initialState g d r opts) = []"
  "workingState (initialState g d r opts) = INCOMPLETE"
  "walkerCache (initialState g d r opts) = (\<lambda>_. None)"
  "walkerCacheMax (initialState g d r opts) = - 1"
  "emitted (initialState g d r opts) = []"
  "wildcardProps (initialState g d r opts) = (\<lambda>_. None)"
  by (simp_all add: initialState_def Let_def setWorkingState_eq)

lemma initialState_props:
  "eventIndexProps (initialState g d r opts) n k =
     (if n = NodeRef r \<and> k = EventIndexAfterStart then Some 0 else None)"
  by (simp add: initialState_def Let_def setWorkingState_eq setNodeProperty_props)

lemma initialState_atContents: "atContents (initialState g d r opts) r"
  by (simp add: atContents_def)

lemma startTagStage_setup: "sameSetup v (fst (startTagStage g v portion))"
  unfolding sameSetup_def propsGrow_def
  by (simp add: startTagStage_def Let_def setNodeProperty_props
      split: option.splits node.splits list.splits)

lemma startTagStage_returns:
  assumes "snd (startTagStage g v portion) = Inr b"
  shows "b" and "cycleEntered (fst (startTagStage g v portion)) = cycleEntered v - 1"
    and "workingState (fst (startTagStage g v portion)) = workingState v"
  using assms
  by (simp_all add: startTagStage_def Let_def split: option.splits node.splits list.splits)

lemma endTagStage_setup: "sameSetup v (fst (endTagStage g v portion))"
  unfolding sameSetup_def propsGrow_def
  by (simp add: endTagStage_def Let_def setNodeProperty_props setWorkingState_eq stopWith_Some
      runDocumentValidation_def
      split: option.splits node.splits list.splits)

lemma endTagStage_returns:
  assumes "snd (endTagStage g v portion) = Inr b"
  shows "cycleEntered (fst (endTagStage g v portion)) = cycleEntered v - 1"
    and "b \<Longrightarrow> workingState (fst (endTagStage g v portion)) = WORKING"
    and "\<not> b \<Longrightarrow> workingState (fst (endTagStage g v portion)) =
           (if errors (fst (endTagStage g v portion)) = [] then VALID else INVALID)"
    and "\<not> b \<Longrightarrow> curEl v = rootNode v"
  using assms
  by (simp_all add: endTagStage_def Let_def setWorkingState_eq stopWith_Some
      runDocumentValidation_def
      split: option.splits node.splits list.splits if_splits)

lemma sameSetup_refl [simp]: "sameSetup v v"
  by (simp add: sameSetup_def)

lemma sameSetup_trans: "sameSetup a b \<Longrightarrow> sameSetup b c \<Longrightarrow> sameSetup a c"
  by (auto simp: sameSetup_def intro: propsGrow_trans)

lemma cycle_cases:
  fixes g :: "('w, 'p) grammar" and v :: "'w validator"
  obtains
    (reentered) "cycleEntered v > 0"
      "cycle g v = (v\<lparr>restarting := False\<rparr>, Inl (Error ''internal error: _cycle is being reentered''))"
  | (negative) "cycleEntered v < 0"
      "cycle g v = (v\<lparr>restarting := False\<rparr>, Inl (Error ''internal error: _cycleEntered negative''))"
  | (nostack) "cycleEntered v = 0"
      "cycle g v = (v\<lparr>restarting := False, cycleEntered := 1\<rparr>, Inl TypeError)"
  | (unexpected) t where "cycleEntered v = 0"
      "cycle g v = (v\<lparr>restarting := False, cycleEntered := 1\<rparr>, Inl (UnexpectedNodeType t))"
  | (startTag) u portion where "cycleEntered v = 0" "cycle g v = startTagStage g u portion"
      "sameSetup v u" "cycleEntered u = 1" "workingState u = workingState v"
  | (endTag) u portion where "cycleEntered v = 0" "cycle g v = endTagStage g u portion"
      "sameSetup v u" "cycleEntered u = 1" "workingState u = workingState v"
proof -
  consider "cycleEntered v > 0" | "cycleEntered v < 0" | "cycleEntered v = 0" by linarith
  then show ?thesis
  proof cases
    case 1
    then show ?thesis by (intro reentered) (simp_all add: cycle_def)
  next
    case 2
    then show ?thesis by (intro negative) (simp_all add: cycle_def)
  next
    case 3
    define v1 where "v1 = v\<lparr>restarting := False, cycleEntered := 1\<rparr>"
    have s1: "sameSetup v v1" "cycleEntered v1 = 1" "workingState v1 = workingState v"
      by (simp_all add: v1_def sameSetup_def propsGrow_def)
    show ?thesis
    proof (cases "validationStack v")
      case Nil
      with 3 show ?thesis by (intro nostack) (simp_all add: cycle_def)
    next
      case (Cons fr frs)
      show ?thesis
      proof (cases "validationStage v")
        case START_TAG
        with 3 Cons have "cycle g v = startTagStage g v1 (statePortion fr)"
          by (simp add: cycle_def v1_def)
        with 3 s1 show ?thesis by (intro startTag)
      next
        case END_TAG
        with 3 Cons have "cycle g v = endTagStage g v1 (statePortion fr)"
          by (simp add: cycle_def v1_def)
        with 3 s1 show ?thesis by (intro endTag)
      next
        case CONTENTS
        with 3 Cons have c: "cycle g v = contentsStage g v1 (statePortion fr)"
          by (simp add: cycle_def v1_def)
        show ?thesis
        proof (cases "contentsScan (document v1) (contentsStart v1)")
          case (Unexpected t)
          with c have "cycle g v = (v1, Inl (UnexpectedNodeType t))" by (simp add: contentsStage_def)
          with 3 show ?thesis unfolding v1_def by (intro unexpected)
        next
          case (FoundElement child acc accNode)
          define r where "r = flushText g v1 (validationWalker v1) acc accNode"
          define u where "u = (fst r)\<lparr>validationWalker := snd r, curEl := child,
                                 validationStage := START_TAG, previousChild := None\<rparr>"
          from c FoundElement
          have "cycle g v = startTagStage g u
                   (statePortion fr / of_nat (childElementCount (document v1) (curEl v1)))"
            by (simp add: contentsStage_def Let_def u_def r_def)
          moreover have "sameSetup v u" "cycleEntered u = 1" "workingState u = workingState v"
            by (simp_all add: u_def r_def v1_def sameSetup_def propsGrow_def)
          ultimately show ?thesis using 3 by (intro startTag)
        next
          case (Exhausted acc accNode)
          define r where "r = flushText g v1 (validationWalker v1) acc accNode"
          define u where "u = (fst r)\<lparr>validationWalker := snd r, validationStage := END_TAG\<rparr>"
          from c Exhausted
          have "cycle g v = endTagStage g u (statePortion fr)"
            by (simp add: contentsStage_def Let_def u_def r_def)
          moreover have "sameSetup v u" "cycleEntered u = 1" "workingState u = workingState v"
            by (simp_all add: u_def r_def v1_def sameSetup_def propsGrow_def)
          ultimately show ?thesis using 3 by (intro endTag)
        qed
      qed
    qed
  qed
qed

lemma cycle_setup: "sameSetup v (fst (cycle g v))"
proof (cases rule: cycle_cases[of v g])
  case (startTag u portion)
  then show ?thesis using sameSetup_trans[OF startTag(3) startTagStage_setup] by simp
next
  case (endTag u portion)
  then show ?thesis using sameSetup_trans[OF endTag(3) endTagStage_setup] by simp
qed (simp_all add: sameSetup_def propsGrow_def)

lemma cycle_returns:
  assumes "snd (cycle g v) = Inr b"
  shows "cycleEntered v = 0" and "cycleEntered (fst (cycle g v)) = 0"
    and "b \<Longrightarrow> workingState (fst (cycle g v)) = workingState v \<or> workingState (fst (cycle g v)) = WORKING"
    and "\<not> b \<Longrightarrow> workingState (fst (cycle g v)) =
           (if errors (fst (cycle g v)) = [] then VALID else INVALID)"
proof -
  have "cycleEntered v = 0 \<and> cycleEntered (fst (cycle g v)) = 0 \<and>
        (b \<longrightarrow> workingState (fst (cycle g v)) = workingState v \<or> workingState (fst (cycle g v)) = WORKING) \<and>
        (\<not> b \<longrightarrow> workingState (fst (cycle g v)) =
           (if errors (fst (cycle g v)) = [] then VALID else INVALID))"
  proof (cases rule: cycle_cases[of v g])
    case (startTag u portion)
    from assms startTag(2) have r: "snd (startTagStage g u portion) = Inr b" by simp
    from startTagStage_returns[OF r] startTag show ?thesis by simp
  next
    case (endTag u portion)
    from assms endTag(2) have r: "snd (endTagStage g u portion) = Inr b" by simp
    from endTagStage_returns[OF r] endTag show ?thesis by auto
  qed (use assms in simp_all)
  then show "cycleEntered v = 0" and "cycleEntered (fst (cycle g v)) = 0"
    and "b \<Longrightarrow> workingState (fst (cycle g v)) = workingState v \<or> workingState (fst (cycle g v)) = WORKING"
    and "\<not> b \<Longrightarrow> workingState (fst (cycle g v)) =
           (if errors (fst (cycle g v)) = [] then VALID else INVALID)"
    by simp_all
qed

lemma startTagStage_throws:
  "snd (startTagStage g v portion) = Inl e \<Longrightarrow>
   workingState (fst (startTagStage g v portion)) = workingState v"
  by (simp add: startTagStage_def Let_def split: option.splits node.splits list.splits)

lemma endTagStage_throws:
  "snd (endTagStage g v portion) = Inl e \<Longrightarrow>
   workingState (fst (endTagStage g v portion)) = workingState v"
  by (simp add: endTagStage_def Let_def setWorkingState_eq stopWith_Some
      split: option.splits node.splits list.splits if_splits)

lemma cycle_throws:
  assumes "snd (cycle g v) = Inl e"
  shows "workingState (fst (cycle g v)) = workingState v"
proof (cases rule: cycle_cases[of v g])
  case (startTag u portion)
  with assms startTagStage_throws[of g u portion e] show ?thesis by simp
next
  case (endTag u portion)
  with assms endTagStage_throws[of g u portion e] show ?thesis by simp
qed simp_all

lemma endTagStage_finalizes:
  "snd (endTagStage g v portion) = Inr False \<Longrightarrow>
   validationWalker (fst (endTagStage g v portion)) = fst (walkerEnd g (validationWalker v)) \<and>
   validationStage (fst (endTagStage g v portion)) = validationStage v \<and>
   curEl (fst (endTagStage g v portion)) = rootNode v"
  by (simp add: endTagStage_def Let_def setWorkingState_eq stopWith_Some runDocumentValidation_def
      split: option.splits node.splits list.splits if_splits)

lemma cycle_completes:
  assumes "snd (cycle g v) = Inr False"
  shows "\<exists>w. validationWalker (fst (cycle g v)) = fst (walkerEnd g w)"
    and "curEl (fst (cycle g v)) = rootNode (fst (cycle g v))"
proof -
  have "(\<exists>w. validationWalker (fst (cycle g v)) = fst (walkerEnd g w)) \<and>
        curEl (fst (cycle g v)) = rootNode (fst (cycle g v))"
  proof (cases rule: cycle_cases[of v g])
    case (startTag u portion)
    with assms startTagStage_returns(1)[of g u portion False] show ?thesis by simp
  next
    case (endTag u portion)
    from assms endTag(2) have r: "snd (endTagStage g u portion) = Inr False" by simp
    from endTagStage_finalizes[OF r] endTagStage_setup[of u g portion] endTag(2)
    show ?thesis by (auto simp: sameSetup_def)
  qed (use assms in simp_all)
  then show "\<exists>w. validationWalker (fst (cycle g v)) = fst (walkerEnd g w)"
    and "curEl (fst (cycle g v)) = rootNode (fst (cycle g v))" by simp_all
qed

lemma cycles_midrun:
  "cycles g n v = (u, Inr True) \<Longrightarrow> workingState v = INCOMPLETE \<or> workingState v = WORKING \<Longrightarrow>
   workingState u = INCOMPLETE \<or> workingState u = WORKING"
proof (induction n arbitrary: v)
  case 0
  then show ?case by simp
next
  case (Suc n)
  from Suc.prems(1) have r: "snd (cycle g v) = Inr True" and c: "cycles g n (fst (cycle g v)) = (u, Inr True)"
    by (auto simp: Let_def split: sum.splits if_splits)
  from cycle_returns(3)[OF r] Suc.prems(2)
  have "workingState (fst (cycle g v)) = INCOMPLETE \<or> workingState (fst (cycle g v)) = WORKING" by auto
  from Suc.IH[OF c this] show ?case .
qed

lemma stop_state:
  "workingState (stop v) = (if workingState v = WORKING then INCOMPLETE else workingState v)"
  by (simp add: stop_def stopWith_def setWorkingState_eq)

lemma firedDocument_Some:
  "firedDocument g kids = Some (w, es) \<Longrightarrow>
   \<exists>res. firedNodes g (newWalker g, []) kids [] = Some res \<and>
         w = fst (walkerEnd g (fst (specText g (fst res) (snd res)))) \<and>
         es = snd (specText g (fst res) (snd res)) @
              (case snd (walkerEnd g (fst (specText g (fst res) (snd res)))) of None \<Rightarrow> [] | Some rs \<Rightarrow> rs)"
  by (cases "firedNodes g (newWalker g, []) kids []") (auto simp: firedDocument_def Let_def)

text \<open>
  The defining equations of the model, for evaluating it on a concrete document. Used with
  the congruence rule \<open>let_weak_cong\<close>, which has a bound value computed once, before
  it is substituted.
\<close>

lemmas model_defs =
  cycle_def contentsStage_def startTagStage_def endTagStage_def contentsScan_def contentsStart_def
  firstChild_def nextSibling_def kidsAt_def flushText_def fireAndProcessEvent_def
  fireAttributeNameEvent_def setPossibleDueToWildcard_def isPossibleDueToWildcard_def
  processError_def emit_def setNodeProperty_def setWorkingState_def stopWith_def
  runDocumentValidation_def initialState_def defaultOptions_def optionOr_def childElementCount_def
  node_at.simps(2)

lemma start_state:
  "workingState (start v tid) = workingState v \<or> workingState (start v tid) = WORKING"
  by (simp add: start_def stopWith_Some setWorkingState_eq Let_def)

lemma restartAt_state:
  "workingState (restartAt g v tid) = workingState v \<or> workingState (restartAt g v tid) = WORKING"
  by (simp add: restartAt_def start_def stopWith_Some setWorkingState_eq Let_def resetTo_def
      erase_def emit_def)

lemma cycle_reentered:
  "0 < cycleEntered v \<Longrightarrow>
   cycle g v = (v\<lparr>restarting := False\<rparr>, Inl (Error ''internal error: _cycle is being reentered''))"
  by (simp add: cycle_def)

lemma startsWith_colon:
  assumes "startsWith ''xmlns:'' n"
  shows "startsWith ''xmlns'' n"
proof -
  from assms have t: "take (length ''xmlns:'') n = ''xmlns:''" by (simp only: startsWith_def)
  have "take (length ''xmlns'') n = take (length ''xmlns'') (take (length ''xmlns:'') n)" by simp
  also have "\<dots> = ''xmlns''" by (simp only: t) simp
  finally show ?thesis by (simp only: startsWith_def)
qed

lemma firedAttributes_spec:
  "list_all plainAttribute as \<Longrightarrow> firedAttributes g a as = specAttributes g a as"
proof (induction as arbitrary: a)
  case Nil
  then show ?case by simp
next
  case (Cons x xs)
  then have "startsWith ''xmlns'' (attrName x) = isNamespaceDeclaration (attrName x)"
    using startsWith_colon[of "attrName x"]
    by (auto simp: plainAttribute_def isNamespaceDeclaration_def startsWith_def)
  with Cons show ?case by (simp split: option.splits)
qed

lemma firedStartTag_spec:
  "list_all plainAttribute as \<Longrightarrow> firedStartTag g a tag as = specStartTag g a tag as"
  by (simp add: firedStartTag_def specStartTag_def firedAttributes_spec)

lemma firedNodes_spec:
  "list_all plainNames ns \<Longrightarrow> firedNodes g a ns pending = specNodes g a ns pending"
proof (induction g a ns pending rule: firedNodes.induct)
  case (4 g a tag attrs cs ns pending)
  from "4.prems" have pa: "list_all plainAttribute attrs" and pc: "list_all plainNames cs"
    and pn: "list_all plainNames ns" by simp_all
  have kids: "firedNodes g (firedStartTag g (specText g a pending) tag attrs) cs []
                = specNodes g (specStartTag g (specText g a pending) tag attrs) cs []"
    using "4.IH"(1)[OF pc] by (simp add: firedStartTag_spec[OF pa])
  show ?case
  proof (cases "firedNodes g (firedStartTag g (specText g a pending) tag attrs) cs []")
    case None
    with kids show ?thesis by simp
  next
    case (Some r)
    from "4.IH"(2)[OF Some pn] Some kids show ?thesis by simp
  qed
qed simp_all

lemma firedDocument_spec:
  "list_all plainNames kids \<Longrightarrow> firedDocument g kids = specDocument g kids"
  by (simp add: firedDocument_def specDocument_def firedNodes_spec)

lemma plain_document_completion:
  fixes g :: "('w, 'p) grammar"
  assumes v0: "newValidator g d r opts = Inr v0"
    and plain: "list_all plainNames (kidsAt d r)"
    and spec: "specDocument g (kidsAt d r) = Some (w, es)"
  shows "\<exists>v. cycles g (Suc (2 * elems (kidsAt d r))) v0 = (v, Inr False) \<and>
             map error (errors v) = es \<and> validationWalker v = w \<and>
             workingState v = (if es = [] then VALID else INVALID)"
proof -
  from v0 have v0': "v0 = initialState g d r opts"
    by (auto simp: newValidator_def split: if_splits)
  from spec plain have "firedDocument g (kidsAt d r) = Some (w, es)"
    by (simp add: firedDocument_spec)
  from firedDocument_Some[OF this] obtain res
    where res: "firedNodes g (newWalker g, []) (kidsAt d r) [] = Some res"
      and w: "w = fst (walkerEnd g (fst (specText g (fst res) (snd res))))"
      and es: "es = snd (specText g (fst res) (snd res)) @
            (case snd (walkerEnd g (fst (specText g (fst res) (snd res)))) of None \<Rightarrow> [] | Some rs \<Rightarrow> rs)"
    by blast
  have "firedNodes g (validationWalker v0, map error (errors v0)) (kidsAt (document v0) r) [] = Some res"
    using res by (simp add: v0')
  from run_from_root[OF _ _ _ this] obtain v
    where "cycles g (Suc (2 * elems (kidsAt (document v0) r))) v0 = (v, Inr False)"
      and "validationWalker v = fst (walkerEnd g (fst (specText g (fst res) (snd res))))"
      and "map error (errors v) =
           snd (specText g (fst res) (snd res)) @
           (case snd (walkerEnd g (fst (specText g (fst res) (snd res)))) of
              None \<Rightarrow> [] | Some rs \<Rightarrow> rs)"
      and "workingState v = (if errors v = [] then VALID else INVALID)"
    using initialState_atContents[of g d r opts] by (auto simp: v0')
  then show ?thesis using w es by (intro exI[of _ v]) (auto simp: v0')
qed

lemma fireAll_simps [simp]:
  "fireAll g w [] = w"
  "fireAll g w (ev # evs) = fireAll g (fst (fireEvent g w ev)) evs"
  "fireAll g w (xs @ ys) = fireAll g (fireAll g w xs) ys"
  by (simp_all add: fireAll_def)

lemma appended_upd [simp]:
  "appended g evs0 w0 (setNodeProperty v n k x) w = appended g evs0 w0 v w"
  "appended g evs0 w0 (processEventResult v rs nd ix) w = appended g evs0 w0 v w"
  "appended g evs0 w0 (processError v e) w = appended g evs0 w0 v w"
  "appended g evs0 w0 (v\<lparr>validationStack := a1\<rparr>) w = appended g evs0 w0 v w"
  "appended g evs0 w0 (v\<lparr>validationStage := a2\<rparr>) w = appended g evs0 w0 v w"
  "appended g evs0 w0 (v\<lparr>validationWalker := a3\<rparr>) w = appended g evs0 w0 v w"
  "appended g evs0 w0 (v\<lparr>cycleEntered := a4\<rparr>) w = appended g evs0 w0 v w"
  "appended g evs0 w0 (v\<lparr>curEl := a5\<rparr>) w = appended g evs0 w0 v w"
  "appended g evs0 w0 (v\<lparr>previousChild := a6\<rparr>) w = appended g evs0 w0 v w"
  "appended g evs0 w0 (v\<lparr>restarting := a7\<rparr>) w = appended g evs0 w0 v w"
  "appended g evs0 w0 (v\<lparr>partDone := a8\<rparr>) w = appended g evs0 w0 v w"
  "appended g evs0 w0 (setWorkingState v s dn) w = appended g evs0 w0 v w"
  "appended g evs0 w0 (stopWith v (Some s)) w = appended g evs0 w0 v w"
  "appended g evs0 w0 (runDocumentValidation v) w = appended g evs0 w0 v w"
  "appended g evs0 w0 (setPossibleDueToWildcard g' v n w' en ns nm) w = appended g evs0 w0 v w"
  by (simp_all add: appended_def setWorkingState_eq stopWith_Some runDocumentValidation_def
      setPossibleDueToWildcard_def emit_def Let_def)

lemma appended_same_log:
  "appended g evs0 w0 v w \<Longrightarrow> validationEvents v' = validationEvents v \<Longrightarrow> appended g evs0 w0 v' w"
  by (simp add: appended_def)

lemma appended_start [simp]: "appended g (validationEvents v) w v w"
  unfolding appended_def by (rule exI[of _ "[]"]) simp

lemma fireAndProcessEvent_appended:
  assumes "appended g evs0 w0 v w" "\<not> isTextEvent ev"
  shows "appended g evs0 w0 (fst (fireAndProcessEvent g v w ev el ix)) (snd (fireAndProcessEvent g v w ev el ix))"
proof -
  from assms(1) obtain fired where f: "w = fireAll g w0 fired"
    "validationEvents v = evs0 @ filter (\<lambda>e. \<not> isTextEvent e) fired"
    by (auto simp: appended_def)
  have "snd (fireAndProcessEvent g v w ev el ix) = fireAll g w0 (fired @ [ev])"
    using f(1) by (simp add: fireAndProcessEvent_def Let_def split: option.splits)
  moreover have "validationEvents (fst (fireAndProcessEvent g v w ev el ix))
      = evs0 @ filter (\<lambda>e. \<not> isTextEvent e) (fired @ [ev])"
    using f(2) assms(2) by (simp add: fireAndProcessEvent_def Let_def split: option.splits)
  ultimately show ?thesis unfolding appended_def by blast
qed

lemma flushText_appended:
  assumes "appended g evs0 w0 v w"
  shows "appended g evs0 w0 (fst (flushText g v w acc accNode)) (snd (flushText g v w acc accNode))"
proof (cases "acc = []")
  case True
  with assms show ?thesis by (simp add: flushText_def)
next
  case False
  from assms obtain fired where f: "w = fireAll g w0 fired"
    "validationEvents v = evs0 @ filter (\<lambda>e. \<not> isTextEvent e) fired"
    by (auto simp: appended_def)
  have "snd (flushText g v w acc accNode) = fireAll g w0 (fired @ [TextEvent (concat acc)])"
    using f(1) False by (simp add: flushText_def Let_def split: option.splits)
  moreover have "validationEvents (fst (flushText g v w acc accNode))
      = evs0 @ filter (\<lambda>e. \<not> isTextEvent e) (fired @ [TextEvent (concat acc)])"
    using f(2) False by (simp add: flushText_def Let_def isTextEvent_def split: option.splits)
  ultimately show ?thesis unfolding appended_def by blast
qed

lemma fireAttributeNameEvent_appended:
  assumes "appended g evs0 w0 v w"
  shows "appended g evs0 w0 (fst (fireAttributeNameEvent g v w ref a)) (fst (snd (fireAttributeNameEvent g v w ref a)))"
  using assms
  by (auto simp: fireAttributeNameEvent_def Let_def isTextEvent_def
      intro!: fireAndProcessEvent_appended split: option.splits)

lemma fireAttributeEvents_appended:
  assumes "appended g evs0 w0 v w"
  shows "appended g evs0 w0 (fst (fireAttributeEvents g v w el as i)) (snd (fireAttributeEvents g v w el as i))"
  using assms
proof (induction as arbitrary: v w i)
  case Nil
  then show ?case by simp
next
  case (Cons a as)
  note n = fireAttributeNameEvent_appended[OF Cons.prems, of "AttrRef el i" a]
  have v: "appended g evs0 w0 (fst (fireAndProcessEvent g (fst (fireAttributeNameEvent g v w (AttrRef el i) a))
              (fst (snd (fireAttributeNameEvent g v w (AttrRef el i) a))) (AttributeValue (attrValue a))
              (Some (AttrRef el i)) (Some 0)))
            (snd (fireAndProcessEvent g (fst (fireAttributeNameEvent g v w (AttrRef el i) a))
              (fst (snd (fireAttributeNameEvent g v w (AttrRef el i) a))) (AttributeValue (attrValue a))
              (Some (AttrRef el i)) (Some 0)))"
    by (rule fireAndProcessEvent_appended[OF n]) (simp add: isTextEvent_def)
  show ?case
    using Cons.IH[OF Cons.prems] Cons.IH[OF n] Cons.IH[OF v]
    by (simp add: Let_def)
qed

lemma definePrefixes_appended:
  assumes "appended g evs0 w0 v w"
  shows "appended g evs0 w0 (fst (definePrefixes g v w el as)) (snd (definePrefixes g v w el as))"
  using assms
proof (induction as arbitrary: v w)
  case Nil
  then show ?case by simp
next
  case (Cons a as)
  have p: "appended g evs0 w0 (fst (fireAndProcessEvent g v w (DefinePrefix x y) (Some (NodeRef el)) (Some 0)))
            (snd (fireAndProcessEvent g v w (DefinePrefix x y) (Some (NodeRef el)) (Some 0)))" for x y
    by (rule fireAndProcessEvent_appended[OF Cons.prems]) (simp add: isTextEvent_def)
  show ?case
    using Cons.IH[OF Cons.prems] Cons.IH[OF p]
    by (simp add: Let_def)
qed

lemma startTagStage_appended:
  assumes L: "appended g evs0 w0 v (validationWalker v)"
  shows "appended g evs0 w0 (fst (startTagStage g v portion)) (validationWalker (fst (startTagStage g v portion)))"
  using L
  by (auto simp: startTagStage_def Let_def isTextEvent_def
      intro!: fireAndProcessEvent_appended definePrefixes_appended fireAttributeEvents_appended
      split: option.splits node.splits list.splits)

lemma endTag_events_appended:
  assumes L: "appended g evs0 w0 v w"
  shows "appended g evs0 w0
           (fst (fireAndProcessEvent g (fst (fireAndProcessEvent g v w (EndTag ns nm) el ix))
                   (snd (fireAndProcessEvent g v w (EndTag ns nm) el ix)) LeaveContext el' ix'))
           (snd (fireAndProcessEvent g (fst (fireAndProcessEvent g v w (EndTag ns nm) el ix))
                   (snd (fireAndProcessEvent g v w (EndTag ns nm) el ix)) LeaveContext el' ix'))"
  by (rule fireAndProcessEvent_appended[OF fireAndProcessEvent_appended[OF L]])
     (simp_all add: isTextEvent_def)

text \<open>The last step of a pass ends the walker; every other step only fires events.\<close>

lemma endTagStage_appended:
  assumes L: "appended g evs0 w0 v (validationWalker v)"
  shows "if snd (endTagStage g v portion) = Inr False
         then \<exists>w. appended g evs0 w0 (fst (endTagStage g v portion)) w \<and>
                  validationWalker (fst (endTagStage g v portion)) = fst (walkerEnd g w)
         else appended g evs0 w0 (fst (endTagStage g v portion)) (validationWalker (fst (endTagStage g v portion)))"
proof (cases "curEl v = rootNode v")
  case True
  then have "snd (endTagStage g v portion) = Inr False"
    "validationWalker (fst (endTagStage g v portion)) = fst (walkerEnd g (validationWalker v))"
    "validationEvents (fst (endTagStage g v portion)) = validationEvents v"
    by (simp_all add: endTagStage_def Let_def stopWith_Some setWorkingState_eq runDocumentValidation_def
        split: option.splits)
  with appended_same_log[OF L this(3)] show ?thesis by auto
next
  case False
  then have r: "snd (endTagStage g v portion) \<noteq> Inr False"
    by (simp add: endTagStage_def Let_def split: option.splits node.splits list.splits)
  have "appended g evs0 w0 (fst (endTagStage g v portion)) (validationWalker (fst (endTagStage g v portion)))"
    using False L endTag_events_appended[OF L]
    by (simp add: appended_def endTagStage_def Let_def setWorkingState_eq
        split: option.splits node.splits list.splits)
  with r show ?thesis by simp
qed

lemma startTagStage_not_last: "snd (startTagStage g v portion) \<noteq> Inr False"
  by (simp add: startTagStage_def Let_def split: option.splits node.splits list.splits)

lemma contentsStage_appended:
  assumes L: "appended g evs0 w0 v (validationWalker v)"
  shows "if snd (contentsStage g v portion) = Inr False
         then \<exists>w. appended g evs0 w0 (fst (contentsStage g v portion)) w \<and>
                  validationWalker (fst (contentsStage g v portion)) = fst (walkerEnd g w)
         else appended g evs0 w0 (fst (contentsStage g v portion)) (validationWalker (fst (contentsStage g v portion)))"
proof (cases "contentsScan (document v) (contentsStart v)")
  case (FoundElement child acc accNode)
  have "appended g evs0 w0
          ((fst (flushText g v (validationWalker v) acc accNode))
             \<lparr>validationWalker := snd (flushText g v (validationWalker v) acc accNode), curEl := child,
               validationStage := START_TAG, previousChild := None\<rparr>)
          (validationWalker ((fst (flushText g v (validationWalker v) acc accNode))
             \<lparr>validationWalker := snd (flushText g v (validationWalker v) acc accNode), curEl := child,
               validationStage := START_TAG, previousChild := None\<rparr>))"
    using flushText_appended[OF L, of acc accNode] by simp
  from startTagStage_appended[OF this] FoundElement show ?thesis
    by (simp add: contentsStage_def Let_def startTagStage_not_last)
next
  case (Exhausted acc accNode)
  have "appended g evs0 w0
          ((fst (flushText g v (validationWalker v) acc accNode))
             \<lparr>validationWalker := snd (flushText g v (validationWalker v) acc accNode),
               validationStage := END_TAG\<rparr>)
          (validationWalker ((fst (flushText g v (validationWalker v) acc accNode))
             \<lparr>validationWalker := snd (flushText g v (validationWalker v) acc accNode),
               validationStage := END_TAG\<rparr>))"
    using flushText_appended[OF L, of acc accNode] by simp
  from endTagStage_appended[OF this] Exhausted show ?thesis
    by (simp add: contentsStage_def Let_def)
next
  case (Unexpected t)
  with L show ?thesis by (simp add: contentsStage_def)
qed

lemma cycle_appended:
  assumes L: "appended g evs0 w0 v (validationWalker v)"
  shows "if snd (cycle g v) = Inr False
         then \<exists>w. appended g evs0 w0 (fst (cycle g v)) w \<and>
                  validationWalker (fst (cycle g v)) = fst (walkerEnd g w)
         else appended g evs0 w0 (fst (cycle g v)) (validationWalker (fst (cycle g v)))"
proof -
  have L1: "appended g evs0 w0 (v\<lparr>restarting := False, cycleEntered := 1\<rparr>)
              (validationWalker (v\<lparr>restarting := False, cycleEntered := 1\<rparr>))"
    using L by simp
  show ?thesis
    using L startTagStage_appended[OF L1] contentsStage_appended[OF L1] endTagStage_appended[OF L1]
    by (simp add: cycle_def Let_def startTagStage_not_last split: list.splits Stage.splits)
qed

lemma cycles_appended:
  "appended g evs0 w0 v (validationWalker v) \<Longrightarrow>
   (if snd (cycles g n v) = Inr False
    then \<exists>w. appended g evs0 w0 (fst (cycles g n v)) w \<and>
             validationWalker (fst (cycles g n v)) = fst (walkerEnd g w)
    else appended g evs0 w0 (fst (cycles g n v)) (validationWalker (fst (cycles g n v))))"
proof (induction n arbitrary: v)
  case 0
  then show ?case by simp
next
  case (Suc n)
  note c = cycle_appended[OF Suc.prems]
  show ?case
  proof (cases "snd (cycle g v)")
    case (Inl e)
    with c show ?thesis by (simp add: Let_def)
  next
    case (Inr again)
    show ?thesis
    proof (cases again)
      case True
      with Inr c have "appended g evs0 w0 (fst (cycle g v)) (validationWalker (fst (cycle g v)))" by simp
      from Suc.IH[OF this] Inr True show ?thesis by (simp add: Let_def)
    next
      case False
      with Inr c show ?thesis by (simp add: Let_def)
    qed
  qed
qed

lemma replay_fireAll:
  "nat ix + n \<le> length evs \<Longrightarrow> 0 \<le> ix \<Longrightarrow>
   replay g evs w n ix = Inr (fireAll g w (take n (drop (nat ix) evs)))"
proof (induction n arbitrary: w ix)
  case 0
  then show ?case by simp
next
  case (Suc n)
  have lt: "nat ix < length evs" using Suc.prems by auto
  have nx: "nat (ix + 1) = Suc (nat ix)" using Suc.prems by auto
  have "nat (ix + 1) + n \<le> length evs" "0 \<le> ix + 1" using Suc.prems by auto
  from Suc.IH[OF this, of "fst (fireEvent g w (evs ! nat ix))"]
  have "replay g evs (fst (fireEvent g w (evs ! nat ix))) n (ix + 1)
          = Inr (fireAll g (fst (fireEvent g w (evs ! nat ix))) (take n (drop (Suc (nat ix)) evs)))"
    by (simp add: nx)
  moreover have "take (Suc n) (drop (nat ix) evs) = evs ! nat ix # take n (drop (Suc (nat ix)) evs)"
    using lt by (simp add: Cons_nth_drop_Suc[symmetric])
  ultimately show ?case
    using lt Suc.prems by simp
qed

lemma take_filter_all:
  "\<forall>e\<in>set (take i xs). P e \<Longrightarrow> take i (filter P xs) = take i xs"
proof (induction xs arbitrary: i)
  case Nil
  then show ?case by simp
next
  case (Cons x xs)
  then show ?case by (cases i) auto
qed

lemma fireAll_recording: "fireAll recordingGrammar w evs = w @ evs"
  by (induction evs arbitrary: w) (simp_all add: recordingGrammar_def)

lemma withGap_fields [simp]:
  "cycleEntered (withGap x v) = cycleEntered v"
  "timeout (withGap x v) = timeout v"
  "maxTimespan (withGap x v) = maxTimespan v"
  "timeoutId (withGap x v) = timeoutId v"
  "restarting (withGap x v) = restarting v"
  "errors (withGap x v) = errors v"
  "validationEvents (withGap x v) = validationEvents v"
  "validationWalker (withGap x v) = validationWalker v"
  "workingState (withGap x v) = workingState v"
  "partDone (withGap x v) = partDone v"
  "validationStage (withGap x v) = validationStage v"
  "previousChild (withGap x v) = previousChild v"
  "validationStack (withGap x v) = validationStack v"
  "curEl (withGap x v) = curEl v"
  "walkerCache (withGap x v) = walkerCache v"
  "walkerCacheMax (withGap x v) = walkerCacheMax v"
  "prefix (withGap x v) = prefix v"
  "walkerCacheGap (withGap x v) = x"
  "emitted (withGap x v) = emitted v"
  "rootNode (withGap x v) = rootNode v"
  "document (withGap x v) = document v"
  "eventIndexProps (withGap x v) = eventIndexProps v"
  "wildcardProps (withGap x v) = wildcardProps v"
  by (simp_all add: withGap_def)

lemma withGap_upd [simp]:
  "(withGap x v)\<lparr>cycleEntered := a1\<rparr> = withGap x (v\<lparr>cycleEntered := a1\<rparr>)"
  "(withGap x v)\<lparr>timeoutId := a2\<rparr> = withGap x (v\<lparr>timeoutId := a2\<rparr>)"
  "(withGap x v)\<lparr>restarting := a3\<rparr> = withGap x (v\<lparr>restarting := a3\<rparr>)"
  "(withGap x v)\<lparr>errors := a4\<rparr> = withGap x (v\<lparr>errors := a4\<rparr>)"
  "(withGap x v)\<lparr>validationEvents := a5\<rparr> = withGap x (v\<lparr>validationEvents := a5\<rparr>)"
  "(withGap x v)\<lparr>validationWalker := a6\<rparr> = withGap x (v\<lparr>validationWalker := a6\<rparr>)"
  "(withGap x v)\<lparr>workingState := a7\<rparr> = withGap x (v\<lparr>workingState := a7\<rparr>)"
  "(withGap x v)\<lparr>partDone := a8\<rparr> = withGap x (v\<lparr>partDone := a8\<rparr>)"
  "(withGap x v)\<lparr>validationStage := a9\<rparr> = withGap x (v\<lparr>validationStage := a9\<rparr>)"
  "(withGap x v)\<lparr>previousChild := b1\<rparr> = withGap x (v\<lparr>previousChild := b1\<rparr>)"
  "(withGap x v)\<lparr>validationStack := b2\<rparr> = withGap x (v\<lparr>validationStack := b2\<rparr>)"
  "(withGap x v)\<lparr>curEl := b3\<rparr> = withGap x (v\<lparr>curEl := b3\<rparr>)"
  "(withGap x v)\<lparr>emitted := b4\<rparr> = withGap x (v\<lparr>emitted := b4\<rparr>)"
  "(withGap x v)\<lparr>eventIndexProps := b5\<rparr> = withGap x (v\<lparr>eventIndexProps := b5\<rparr>)"
  "(withGap x v)\<lparr>wildcardProps := b6\<rparr> = withGap x (v\<lparr>wildcardProps := b6\<rparr>)"
  by (simp_all add: withGap_def)

lemma processError_gap:
  "processError (withGap x v) e = withGap x (processError v e)"
  by (simp add: processError_def emit_def)

lemma processEventResult_gap:
  "processEventResult (withGap x v) rs n ix = withGap x (processEventResult v rs n ix)"
  by (induction rs arbitrary: v) (simp_all add: processError_gap)

lemma setNodeProperty_gap:
  "setNodeProperty (withGap x v) n k y = withGap x (setNodeProperty v n k y)"
  by (simp add: setNodeProperty_def)

lemma setWorkingState_gap:
  "setWorkingState (withGap x v) s dn = withGap x (setWorkingState v s dn)"
  by (simp add: setWorkingState_eq)

lemma stopWith_gap:
  "stopWith (withGap x v) st = withGap x (stopWith v st)"
  by (cases st) (simp_all add: stopWith_def setWorkingState_gap Let_def)

lemma setPossibleDueToWildcard_gap:
  "setPossibleDueToWildcard g (withGap x v) n w en ns nm
     = withGap x (setPossibleDueToWildcard g v n w en ns nm)"
  by (simp add: setPossibleDueToWildcard_def emit_def Let_def)

lemma fireAndProcessEvent_gap:
  "fireAndProcessEvent g (withGap x v) w ev el ix
     = (withGap x (fst (fireAndProcessEvent g v w ev el ix)),
        snd (fireAndProcessEvent g v w ev el ix))"
  by (simp add: fireAndProcessEvent_def Let_def processEventResult_gap split: option.splits)

lemma fireAttributeNameEvent_gap:
  "fireAttributeNameEvent g (withGap x v) w ref a
     = (withGap x (fst (fireAttributeNameEvent g v w ref a)),
        snd (fireAttributeNameEvent g v w ref a))"
  by (simp add: fireAttributeNameEvent_def Let_def processError_gap setPossibleDueToWildcard_gap
      fireAndProcessEvent_gap split: option.splits)

lemma fireAttributeEvents_gap:
  "fireAttributeEvents g (withGap x v) w el as i
     = (withGap x (fst (fireAttributeEvents g v w el as i)),
        snd (fireAttributeEvents g v w el as i))"
  by (induction as arbitrary: v w i)
     (simp_all add: Let_def fireAttributeNameEvent_gap fireAndProcessEvent_gap)

lemma definePrefixes_gap:
  "definePrefixes g (withGap x v) w el as
     = (withGap x (fst (definePrefixes g v w el as)),
        snd (definePrefixes g v w el as))"
  by (induction as arbitrary: v w) (simp_all add: Let_def fireAndProcessEvent_gap)

lemma flushText_gap:
  "flushText g (withGap x v) w acc accNode
     = (withGap x (fst (flushText g v w acc accNode)),
        snd (flushText g v w acc accNode))"
  by (simp add: flushText_def Let_def processEventResult_gap split: option.splits)

lemmas gap_moves = processError_gap processEventResult_gap setNodeProperty_gap setWorkingState_gap
  stopWith_gap setPossibleDueToWildcard_gap fireAndProcessEvent_gap fireAttributeNameEvent_gap
  fireAttributeEvents_gap definePrefixes_gap flushText_gap

lemma startTagStage_gap:
  "startTagStage g (withGap x v) portion
     = (withGap x (fst (startTagStage g v portion)), snd (startTagStage g v portion))"
  by (simp add: startTagStage_def Let_def gap_moves split: option.splits node.splits list.splits)

lemma endTagStage_gap:
  "endTagStage g (withGap x v) portion
     = (withGap x (fst (endTagStage g v portion)), snd (endTagStage g v portion))"
  by (simp add: endTagStage_def Let_def gap_moves runDocumentValidation_def
      split: option.splits node.splits list.splits)

lemma contentsStart_gap: "contentsStart (withGap x v) = contentsStart v"
  by (simp add: contentsStart_def split: option.splits)

lemma contentsStage_gap:
  "contentsStage g (withGap x v) portion
     = (withGap x (fst (contentsStage g v portion)), snd (contentsStage g v portion))"
  by (cases "contentsScan (document v) (contentsStart v)")
     (simp_all add: contentsStage_def contentsStart_gap Let_def gap_moves startTagStage_gap endTagStage_gap)

lemma cycle_gap:
  "cycle g (withGap x v) = (withGap x (fst (cycle g v)), snd (cycle g v))"
  by (simp add: cycle_def Let_def startTagStage_gap endTagStage_gap contentsStage_gap
      split: list.splits Stage.splits)

lemma cycles_gap:
  "cycles g n (withGap x v) = (withGap x (fst (cycles g n v)), snd (cycles g n v))"
  by (induction n arbitrary: v) (simp_all add: cycle_gap Let_def split: sum.splits)

lemma initialState_gap:
  "initialState g d r (Options p t m (Some x)) = withGap x (initialState g d r (Options p t m c))"
  by (simp add: initialState_def withGap_def Let_def setNodeProperty_def setWorkingState_eq optionOr_def)

lemma initialState_options [simp]:
  "walkerCacheGap (initialState g d r opts) = optionOr (optWalkerCacheGap opts) 100"
  "timeout (initialState g d r opts) = optionOr (optTimeout opts) 200"
  "maxTimespan (initialState g d r opts) = optionOr (optMaxTimespan opts) 100"
  by (simp_all add: initialState_def Let_def setWorkingState_eq)

lemma readyWalker_frame:
  assumes "readyWalker g v ei = (v', res)"
  shows "v' = v\<lparr>walkerCache := walkerCache v', walkerCacheMax := walkerCacheMax v'\<rparr>"
    and "walkerCache v' \<noteq> walkerCache v \<or> walkerCacheMax v' \<noteq> walkerCacheMax v \<Longrightarrow>
         \<exists>eventIndex w. ei = Some eventIndex \<and> res = Inr w \<and>
           walkerCacheGap v \<le> int eventIndex - fst (nearestSnapshot g v eventIndex) \<and>
           replay g (validationEvents v) (snd (nearestSnapshot g v eventIndex))
             (nat (int eventIndex - fst (nearestSnapshot g v eventIndex)))
             (fst (nearestSnapshot g v eventIndex)) = Inr w \<and>
           walkerCache v' = (walkerCache v)(int eventIndex \<mapsto> w) \<and>
           walkerCacheMax v' = max (int eventIndex) (walkerCacheMax v)"
  using assms
  by (auto simp: readyWalker_def Let_def split: option.splits sum.splits if_splits)


lemma replay_out:
  "0 \<le> ix \<Longrightarrow> nat ix \<le> length evs \<Longrightarrow> length evs < nat ix + n \<Longrightarrow>
   replay g evs w n ix = Inl TypeError"
proof (induction n arbitrary: w ix)
  case 0
  then show ?case by simp
next
  case (Suc n)
  show ?case
  proof (cases "nat ix < length evs")
    case True
    have "0 \<le> ix + 1" "nat (ix + 1) \<le> length evs" "length evs < nat (ix + 1) + n"
      using Suc.prems True by auto
    from Suc.IH[OF this] True Suc.prems show ?thesis by simp
  next
    case False
    then show ?thesis by simp
  qed
qed

lemma replay_eq:
  "0 \<le> ix \<Longrightarrow> nat ix \<le> length evs \<Longrightarrow>
   replay g evs w n ix =
     (if nat ix + n \<le> length evs then Inr (fireAll g w (take n (drop (nat ix) evs))) else Inl TypeError)"
  using replay_fireAll[of ix n evs g w] replay_out[of ix evs n g w] by auto

lemma cacheCoherentD:
  "cacheCoherent g v \<Longrightarrow> walkerCache v i = Some w \<Longrightarrow>
   0 \<le> i \<and> nat i \<le> length (validationEvents v) \<and>
   w = fireAll g (newWalker g) (take (nat i) (validationEvents v))"
  unfolding cacheCoherent_def by blast

lemma take_split: "s \<le> e \<Longrightarrow> take s xs @ take (e - s) (drop s xs) = take e xs"
  by (metis le_add_diff_inverse take_add)

text \<open>A replay that starts from a coherent snapshot gives what the replay from a new walker gives.\<close>

lemma replay_from_snapshot:
  assumes "0 \<le> s" "s \<le> int ei" "nat s \<le> length evs"
  shows "replay g evs (fireAll g w0 (take (nat s) evs)) (nat (int ei - s)) s = replay g evs w0 ei 0"
proof -
  have n: "nat s + nat (int ei - s) = ei" using assms by auto
  have t: "take (nat s) evs @ take (nat (int ei - s)) (drop (nat s) evs) = take ei evs"
    using take_split[of "nat s" ei evs] assms n by (metis diff_add_inverse le_add1)
  have "fireAll g (fireAll g w0 (take (nat s) evs)) (take (nat (int ei - s)) (drop (nat s) evs))
          = fireAll g w0 (take ei evs)"
    using t by (metis fireAll_simps(3))
  then show ?thesis
    using assms n by (simp add: replay_eq)
qed

lemma scanCache_found:
  "scanCache cache n = Some (i, w) \<Longrightarrow> cache i = Some w \<and> 0 \<le> i \<and> i < int n"
  by (induction n) (auto split: option.splits)

lemma nearestSnapshot_coherent:
  assumes "cacheCoherent g v"
  shows "0 \<le> fst (nearestSnapshot g v ei)"
    and "fst (nearestSnapshot g v ei) \<le> int ei"
    and "nat (fst (nearestSnapshot g v ei)) \<le> length (validationEvents v)"
    and "snd (nearestSnapshot g v ei)
           = fireAll g (newWalker g) (take (nat (fst (nearestSnapshot g v ei))) (validationEvents v))"
proof -
  have "0 \<le> fst (nearestSnapshot g v ei) \<and> fst (nearestSnapshot g v ei) \<le> int ei \<and>
        nat (fst (nearestSnapshot g v ei)) \<le> length (validationEvents v) \<and>
        snd (nearestSnapshot g v ei)
           = fireAll g (newWalker g) (take (nat (fst (nearestSnapshot g v ei))) (validationEvents v))"
  proof (cases "walkerCacheMax v \<le> int ei")
    case True
    show ?thesis
    proof (cases "walkerCache v (walkerCacheMax v)")
      case None
      with True show ?thesis by (simp add: nearestSnapshot_def Let_def)
    next
      case (Some w)
      from cacheCoherentD[OF assms Some]
      have "0 \<le> walkerCacheMax v \<and> nat (walkerCacheMax v) \<le> length (validationEvents v) \<and>
        w = fireAll g (newWalker g) (take (nat (walkerCacheMax v)) (validationEvents v))" .
      with True Some show ?thesis by (simp add: nearestSnapshot_def Let_def)
    qed
  next
    case False
    show ?thesis
    proof (cases "scanCache (walkerCache v) ei")
      case None
      with False show ?thesis by (simp add: nearestSnapshot_def Let_def)
    next
      case (Some s)
      obtain i w where s: "s = (i, w)" by (cases s)
      from scanCache_found[OF Some[unfolded s]]
      have c: "walkerCache v i = Some w" and i: "0 \<le> i" "i < int ei" by auto
      from cacheCoherentD[OF assms c] have "nat i \<le> length (validationEvents v) \<and>
        w = fireAll g (newWalker g) (take (nat i) (validationEvents v))" by simp
      with False Some s i show ?thesis by (simp add: nearestSnapshot_def Let_def)
    qed
  qed
  then show "0 \<le> fst (nearestSnapshot g v ei)"
    and "fst (nearestSnapshot g v ei) \<le> int ei"
    and "nat (fst (nearestSnapshot g v ei)) \<le> length (validationEvents v)"
    and "snd (nearestSnapshot g v ei)
           = fireAll g (newWalker g) (take (nat (fst (nearestSnapshot g v ei))) (validationEvents v))"
    by simp_all
qed

lemma readyWalker_coherent:
  assumes co: "cacheCoherent g v" and rw: "readyWalker g v (Some ei) = (v', res)"
  shows "res = replay g (validationEvents v) (newWalker g) ei 0" and "cacheCoherent g v'"
proof -
  have "res = replay g (validationEvents v) (newWalker g) ei 0 \<and> cacheCoherent g v'"
  proof (cases "walkerCache v (int ei)")
    case (Some w)
    from cacheCoherentD[OF co Some] have "ei \<le> length (validationEvents v)"
      "w = fireAll g (newWalker g) (take ei (validationEvents v))"
      by simp_all
    with Some rw co show ?thesis by (auto simp: readyWalker_def replay_eq)
  next
    case None
    note s = nearestSnapshot_coherent[OF co, of ei]
    have r: "replay g (validationEvents v) (snd (nearestSnapshot g v ei))
               (nat (int ei - fst (nearestSnapshot g v ei))) (fst (nearestSnapshot g v ei))
             = replay g (validationEvents v) (newWalker g) ei 0"
      unfolding s(4) by (rule replay_from_snapshot[OF s(1) s(2) s(3)])
    show ?thesis
    proof (cases "replay g (validationEvents v) (newWalker g) ei 0")
      case (Inl e)
      with None rw r co show ?thesis by (simp add: readyWalker_def Let_def)
    next
      case (Inr w)
      then have w: "ei \<le> length (validationEvents v)"
        "w = fireAll g (newWalker g) (take ei (validationEvents v))"
        by (simp_all add: replay_eq split: if_splits)
      have "cacheCoherent g (v\<lparr>walkerCache := (walkerCache v)(int ei \<mapsto> w),
                                walkerCacheMax := max (int ei) (walkerCacheMax v)\<rparr>)"
        using co w by (simp add: cacheCoherent_def)
      with None rw r co Inr show ?thesis
        by (auto simp: readyWalker_def Let_def split: if_splits)
    qed
  qed
  then show "res = replay g (validationEvents v) (newWalker g) ei 0" and "cacheCoherent g v'"
    by simp_all
qed

lemma cacheCoherent_grows:
  assumes "cacheCoherent g v" "walkerCache v' = walkerCache v"
    "validationEvents v' = validationEvents v @ extra"
  shows "cacheCoherent g v'"
  unfolding cacheCoherent_def
proof (intro allI impI)
  fix i w
  assume "walkerCache v' i = Some w"
  with assms(2) have "walkerCache v i = Some w" by simp
  from cacheCoherentD[OF assms(1) this] assms(3)
  show "0 \<le> i \<and> nat i \<le> length (validationEvents v') \<and>
        w = fireAll g (newWalker g) (take (nat i) (validationEvents v'))"
    by simp
qed

lemma cycle_coherent:
  assumes "cacheCoherent g v"
  shows "cacheCoherent g (fst (cycle g v))"
proof -
  have "appended g (validationEvents v) (validationWalker v) v (validationWalker v)" by simp
  from cycle_appended[OF this]
  obtain extra where "validationEvents (fst (cycle g v)) = validationEvents v @ extra"
    by (auto simp: appended_def split: if_splits)
  moreover have "walkerCache (fst (cycle g v)) = walkerCache v"
    using cycle_setup[of v g] by (simp add: sameSetup_def)
  ultimately show ?thesis using cacheCoherent_grows[OF assms] by blast
qed

lemma cycles_coherent:
  "cacheCoherent g v \<Longrightarrow> cacheCoherent g (fst (cycles g n v))"
proof (induction n arbitrary: v)
  case 0
  then show ?case by simp
next
  case (Suc n)
  from Suc.IH[OF cycle_coherent[OF Suc.prems]] cycle_coherent[OF Suc.prems]
  show ?case by (simp add: Let_def split: sum.splits)
qed

lemma initialState_coherent: "cacheCoherent g (initialState g d r opts)"
  by (simp add: cacheCoherent_def)

section \<open>The constructor\<close>

text \<open>
  Claim C9. A negative \<open>timeout\<close>, \<open>maxTimespan\<close> or \<open>walkerCacheGap\<close> makes the
  constructor throw; when none of the three is negative (zero included, and left out
  included) the constructor returns a validator whose three settings are the values given,
  or the defaults 200, 100 and 100 for those left out.
\<close>

theorem constructor_checks_options:
  fixes g :: "('w, 'p) grammar"
  shows
  "((\<exists>n. t = Some n \<and> n < 0) \<or> (\<exists>n. m = Some n \<and> n < 0) \<or> (\<exists>n. c = Some n \<and> n < 0)
      \<longrightarrow> (\<exists>e. newValidator g d r (Options p t m c) = Inl e)) \<and>
   (\<not> ((\<exists>n. t = Some n \<and> n < 0) \<or> (\<exists>n. m = Some n \<and> n < 0) \<or> (\<exists>n. c = Some n \<and> n < 0))
      \<longrightarrow> (\<exists>v. newValidator g d r (Options p t m c) = Inr v \<and>
               timeout v = (case t of None \<Rightarrow> 200 | Some n \<Rightarrow> n) \<and>
               maxTimespan v = (case m of None \<Rightarrow> 100 | Some n \<Rightarrow> n) \<and>
               walkerCacheGap v = (case c of None \<Rightarrow> 100 | Some n \<Rightarrow> n)))"
  by (auto simp: newValidator_def initialState_def negativeOption_def optionOr_def
      setNodeProperty_def setWorkingState_def emit_def Let_def split: option.splits)

theorem constructor_checks_options_witness:
  "(\<exists>e. newValidator exampleGrammar abcDocument [] (Options None (Some 5) (Some (- 1)) None) = Inl e) \<and>
   (\<exists>v. newValidator exampleGrammar abcDocument [] (Options None (Some 0) None (Some 7)) = Inr v \<and>
        timeout v = 0 \<and> maxTimespan v = 100 \<and> walkerCacheGap v = 7)"
  using constructor_checks_options[of "Some 5" "Some (- 1)" None exampleGrammar abcDocument "[]" None]
    constructor_checks_options[of "Some 0" None "Some 7" exampleGrammar abcDocument "[]" None]
  by simp

section \<open>The wildcard flag\<close>

text \<open>
  Claim C8. \<open>_setPossibleDueToWildcard\<close> stores the flag it computes on the node, and
  publishes \<open>possible-due-to-wildcard-change\<close> exactly when the value stored before (none
  at all counts as different) is not the value computed; computing the value already
  stored publishes nothing, so evaluating twice in a row publishes at most once.
\<close>

theorem wildcard_flag_edge_triggered:
  fixes g :: "('w, 'p) grammar"
  shows
  "wildcardProps (setPossibleDueToWildcard g v n w eventName ns nm) n
     = Some (isPossibleDueToWildcard g w eventName ns nm) \<and>
   emitted (setPossibleDueToWildcard g v n w eventName ns nm)
     = emitted v @
       (if wildcardProps v n = Some (isPossibleDueToWildcard g w eventName ns nm) then []
        else [PossibleDueToWildcardChange n]) \<and>
   emitted (setPossibleDueToWildcard g (setPossibleDueToWildcard g v n w eventName ns nm) n w eventName ns nm)
     = emitted (setPossibleDueToWildcard g v n w eventName ns nm)"
  by (auto simp: setPossibleDueToWildcard_def emit_def Let_def)

theorem wildcard_flag_edge_triggered_witness:
  "wildcardProps (setPossibleDueToWildcard exampleGrammar
       (setPossibleDueToWildcard exampleGrammar
          (initialState exampleGrammar abcDocument [] defaultOptions)
          (NodeRef [0]) 0 ''enterStartTag'' [] ''a'')
       (NodeRef [0]) 1 ''enterStartTag'' [] ''a'') (NodeRef [0]) = Some False \<and>
   emitted (setPossibleDueToWildcard exampleGrammar
       (setPossibleDueToWildcard exampleGrammar
          (initialState exampleGrammar abcDocument [] defaultOptions)
          (NodeRef [0]) 0 ''enterStartTag'' [] ''a'')
       (NodeRef [0]) 0 ''enterStartTag'' [] ''a'')
     = [PossibleDueToWildcardChange (NodeRef [0])]"
  using wildcard_flag_edge_triggered[of exampleGrammar
      "setPossibleDueToWildcard exampleGrammar
         (initialState exampleGrammar abcDocument [] defaultOptions)
         (NodeRef [0]) 0 ''enterStartTag'' [] ''a''"
      "NodeRef [0]" 1 "''enterStartTag''" "[]" "''a''"]
    wildcard_flag_edge_triggered[of exampleGrammar
      "initialState exampleGrammar abcDocument [] defaultOptions"
      "NodeRef [0]" 0 "''enterStartTag''" "[]" "''a''"]
  by (simp add: isPossibleDueToWildcard_def exampleGrammar_def examplePossible_def
      initialState_def setNodeProperty_def setWorkingState_def Let_def)

section \<open>The reentrancy guard\<close>

text \<open>
  Claim C7. A step entered while the counter \<open>_cycleEntered\<close> is positive throws the
  reentrancy error (lemma \<open>cycle_reentered\<close>), and a step that returns leaves the counter
  at 0 (lemma \<open>cycle_returns\<close>). But a step that throws does not decrement the counter
  it has incremented. On a document whose root holds a processing instruction the first
  step throws \<open>unexpected node type: 7\<close> with the counter left at 1, and the next step,
  called after the first one is over, throws the reentrancy error.
\<close>

theorem aborted_step_blocks_next_step:
  "cycle exampleGrammar (initialState exampleGrammar piDocument [] defaultOptions)
     = ((initialState exampleGrammar piDocument [] defaultOptions)\<lparr>restarting := False, cycleEntered := 1\<rparr>,
        Inl (UnexpectedNodeType 7)) \<and>
   cycle exampleGrammar
     ((initialState exampleGrammar piDocument [] defaultOptions)\<lparr>restarting := False, cycleEntered := 1\<rparr>)
     = ((initialState exampleGrammar piDocument [] defaultOptions)\<lparr>restarting := False, cycleEntered := 1\<rparr>,
        Inl (Error ''internal error: _cycle is being reentered''))"
  by (simp add: cycle_def contentsStage_def contentsScan_def contentsStart_def firstChild_def
      kidsAt_def piDocument_def)

section \<open>Completion of a validation pass\<close>

text \<open>
  Claim C1. The verdict of the last step is as the claim says: a step that returns
  \<open>false\<close> leaves \<open>VALID\<close> if no error is recorded and \<open>INVALID\<close> otherwise (lemma
  \<open>cycle_returns\<close>), and on a tree in which no attribute name starts with \<open>xmlns\<close>
  other than the namespace declarations, the pass ends with exactly the errors of the
  document order (lemma \<open>plain_document_completion\<close>). But \<open>_fireAttributeEvents\<close>
  skips every attribute whose name starts with \<open>xmlns\<close>, where the start tag stage and
  \<open>_getWalkerAt\<close> take only \<open>xmlns\<close> and \<open>xmlns:prefix\<close> for namespace declarations.
  The attribute \<open>xmlnsfoo\<close> is fired no event at all. Under a grammar that requires this
  attribute on \<open>a\<close> the document \<open><a xmlnsfoo="z"/>\<close> matches the grammar: its events in
  document order end the walker with no error. The pass over it records the error of the
  missing attribute and ends \<open>INVALID\<close>.
\<close>

theorem pseudo_namespace_attribute_not_fired:
  "specDocument attributeGrammar (kidsAt xmlnsfooDocument []) = Some (5, []) \<and>
   snd (cycles attributeGrammar 3 (initialState attributeGrammar xmlnsfooDocument [] defaultOptions))
     = Inr False \<and>
   workingState (fst (cycles attributeGrammar 3 (initialState attributeGrammar xmlnsfooDocument [] defaultOptions)))
     = INVALID \<and>
   map error (errors (fst (cycles attributeGrammar 3 (initialState attributeGrammar xmlnsfooDocument [] defaultOptions))))
     = [ValidationError ''attribute missing: xmlnsfoo''] \<and>
   validationEvents (fst (cycles attributeGrammar 3 (initialState attributeGrammar xmlnsfooDocument [] defaultOptions)))
     = [EnterContext, EnterStartTag [] ''a'', LeaveStartTag, EndTag [] ''a'', LeaveContext]"
proof -
  have spec: "specDocument attributeGrammar (kidsAt xmlnsfooDocument []) = Some (5, [])"
    by (simp add: specDocument_def specStartTag_def specEndTag_def specText_def specName_def
        specFire_def isNamespaceDeclaration_def startsWith_def kidsAt_def xmlnsfooDocument_def
        attributeGrammar_def attributeFire_def Let_def)
  have run: "case cycles attributeGrammar 3 (initialState attributeGrammar xmlnsfooDocument [] defaultOptions) of
      (v, res) \<Rightarrow>
        res = Inr False \<and> workingState v = INVALID \<and>
        map error (errors v) = [ValidationError ''attribute missing: xmlnsfoo''] \<and>
        validationEvents v = [EnterContext, EnterStartTag [] ''a'', LeaveStartTag, EndTag [] ''a'', LeaveContext]"
    by (simp add: model_defs attributeGrammar_def attributeFire_def xmlnsfooDocument_def startsWith_def
        Let_def numeral_eq_Suc cong: let_weak_cong)
  from spec run show ?thesis by (simp add: case_prod_unfold)
qed

section \<open>Stopping early\<close>


section \<open>The event log\<close>

text \<open>
  Claim C4, as stated: after any number of traversal steps the event log is exactly the
  sequence of the events fired on the validation walker, the joined text event included.
  It is not: \<open>flushText\<close> fires the text event on the walker directly and does not log
  it. With the recording grammar, whose walker is the list of the events fired on it, a
  complete pass over \<open><a>x</a>\<close> fires six events and logs five.
\<close>

theorem text_event_not_logged:
  "snd (cycles recordingGrammar 3 (initialState recordingGrammar textDocument [] defaultOptions))
     = Inr False \<and>
   validationWalker (fst (cycles recordingGrammar 3 (initialState recordingGrammar textDocument [] defaultOptions)))
     = [EnterContext, EnterStartTag [] ''a'', LeaveStartTag, TextEvent ''x'', EndTag [] ''a'', LeaveContext] \<and>
   validationEvents (fst (cycles recordingGrammar 3 (initialState recordingGrammar textDocument [] defaultOptions)))
     = [EnterContext, EnterStartTag [] ''a'', LeaveStartTag, EndTag [] ''a'', LeaveContext]"
proof -
  have "case cycles recordingGrammar 3 (initialState recordingGrammar textDocument [] defaultOptions) of
      (v, res) \<Rightarrow>
        res = Inr False \<and>
        validationWalker v
          = [EnterContext, EnterStartTag [] ''a'', LeaveStartTag, TextEvent ''x'', EndTag [] ''a'', LeaveContext] \<and>
        validationEvents v = [EnterContext, EnterStartTag [] ''a'', LeaveStartTag, EndTag [] ''a'', LeaveContext]"
    by (simp add: model_defs recordingGrammar_def textDocument_def Let_def numeral_eq_Suc
        cong: let_weak_cong)
  then show ?thesis by (simp add: case_prod_unfold)
qed

text \<open>
  Claim C4, amended. Every event that a traversal step fires on the validation walker,
  other than a text event, is appended to the event log in firing order, and a traversal
  step appends nothing else: from any state, any number of traversal steps, whether the
  last one returns or throws, extend the log by exactly the events they fire other than
  text events; the last step of a pass ends the walker after them. After any number of
  traversal steps of a fresh validator the log is therefore the sequence of the events
  fired so far other than text events, and replaying the log prefix up to index \<open>i\<close> on a
  new walker gives the walker as it was after the \<open>i\<close>-th event fired, provided that no
  text event is among the first \<open>i\<close> events fired.
\<close>

theorem traversal_logs_events_other_than_text:
  fixes g :: "('w, 'p) grammar"
  shows
  "(cycles g n v = (v', res) \<longrightarrow>
      (\<exists>fired. validationEvents v' = validationEvents v @ filter (\<lambda>e. \<not> isTextEvent e) fired \<and>
               validationWalker v' =
                 (if res = Inr False then fst (walkerEnd g (fireAll g (validationWalker v) fired))
                  else fireAll g (validationWalker v) fired))) \<and>
   (newValidator g d r opts = Inr v0 \<and> cycles g n v0 = (u, res0) \<longrightarrow>
      (\<exists>fired. validationEvents u = filter (\<lambda>e. \<not> isTextEvent e) fired \<and>
               validationWalker u =
                 (if res0 = Inr False then fst (walkerEnd g (fireAll g (newWalker g) fired))
                  else fireAll g (newWalker g) fired) \<and>
               (\<forall>i \<le> length fired.
                  (\<forall>e \<in> set (take i fired). \<not> isTextEvent e) \<longrightarrow>
                  replay g (validationEvents u) (newWalker g) i 0
                    = Inr (fireAll g (newWalker g) (take i fired)))))"
proof -
  have step: "\<exists>fired. validationEvents y = validationEvents x @ filter (\<lambda>e. \<not> isTextEvent e) fired \<and>
               validationWalker y =
                 (if rs = Inr False then fst (walkerEnd g (fireAll g (validationWalker x) fired))
                  else fireAll g (validationWalker x) fired)"
    if run: "cycles g n x = (y, rs)" for x y rs
  proof -
    have "appended g (validationEvents x) (validationWalker x) x (validationWalker x)" by simp
    from cycles_appended[OF this, of n] run show ?thesis
      by (auto simp: appended_def split: if_splits)
  qed
  have fresh: "\<exists>fired. validationEvents u = filter (\<lambda>e. \<not> isTextEvent e) fired \<and>
               validationWalker u =
                 (if res0 = Inr False then fst (walkerEnd g (fireAll g (newWalker g) fired))
                  else fireAll g (newWalker g) fired) \<and>
               (\<forall>i \<le> length fired.
                  (\<forall>e \<in> set (take i fired). \<not> isTextEvent e) \<longrightarrow>
                  replay g (validationEvents u) (newWalker g) i 0
                    = Inr (fireAll g (newWalker g) (take i fired)))"
    if v0: "newValidator g d r opts = Inr v0" and run: "cycles g n v0 = (u, res0)"
  proof -
    from v0 have v0': "v0 = initialState g d r opts"
      by (auto simp: newValidator_def split: if_splits)
    from step[OF run] obtain fired
      where log: "validationEvents u = filter (\<lambda>e. \<not> isTextEvent e) fired"
        and w: "validationWalker u =
                 (if res0 = Inr False then fst (walkerEnd g (fireAll g (newWalker g) fired))
                  else fireAll g (newWalker g) fired)"
      by (auto simp: v0')
    have "replay g (validationEvents u) (newWalker g) i 0 = Inr (fireAll g (newWalker g) (take i fired))"
      if i: "i \<le> length fired" and nt: "\<forall>e \<in> set (take i fired). \<not> isTextEvent e" for i
    proof -
      have t: "take i (validationEvents u) = take i fired"
        unfolding log by (rule take_filter_all[OF nt])
      then have "length (take i (validationEvents u)) = i" using i by simp
      then have "i \<le> length (validationEvents u)" by simp
      from replay_fireAll[of 0 i "validationEvents u" g "newWalker g"] this t show ?thesis by simp
    qed
    with log w show ?thesis by blast
  qed
  from step fresh show ?thesis by blast
qed

theorem traversal_logs_events_other_than_text_witness:
  "newValidator recordingGrammar textDocument [] defaultOptions
     = Inr (initialState recordingGrammar textDocument [] defaultOptions) \<and>
   snd (cycles recordingGrammar 2 (initialState recordingGrammar textDocument [] defaultOptions)) = Inr True \<and>
   validationWalker (fst (cycles recordingGrammar 2 (initialState recordingGrammar textDocument [] defaultOptions)))
     = [EnterContext, EnterStartTag [] ''a'', LeaveStartTag, TextEvent ''x'', EndTag [] ''a'', LeaveContext] \<and>
   validationEvents (fst (cycles recordingGrammar 2 (initialState recordingGrammar textDocument [] defaultOptions)))
     = [EnterContext, EnterStartTag [] ''a'', LeaveStartTag, EndTag [] ''a'', LeaveContext] \<and>
   replay recordingGrammar
     (validationEvents (fst (cycles recordingGrammar 2 (initialState recordingGrammar textDocument [] defaultOptions))))
     (newWalker recordingGrammar) 3 0
     = Inr [EnterContext, EnterStartTag [] ''a'', LeaveStartTag]"
proof -
  let ?v0 = "initialState recordingGrammar textDocument [] defaultOptions"
  let ?u = "fst (cycles recordingGrammar 2 ?v0)"
  have a: "newValidator recordingGrammar textDocument [] defaultOptions = Inr ?v0"
    by (simp add: newValidator_def defaultOptions_def negativeOption_def)
  have "case cycles recordingGrammar 2 ?v0 of
      (v, res) \<Rightarrow>
        res = Inr True \<and>
        validationWalker v
          = [EnterContext, EnterStartTag [] ''a'', LeaveStartTag, TextEvent ''x'', EndTag [] ''a'', LeaveContext] \<and>
        validationEvents v = [EnterContext, EnterStartTag [] ''a'', LeaveStartTag, EndTag [] ''a'', LeaveContext]"
    by (simp add: model_defs recordingGrammar_def textDocument_def Let_def numeral_eq_Suc
        cong: let_weak_cong)
  then have res: "snd (cycles recordingGrammar 2 ?v0) = Inr True"
    and w: "validationWalker ?u
          = [EnterContext, EnterStartTag [] ''a'', LeaveStartTag, TextEvent ''x'', EndTag [] ''a'', LeaveContext]"
    and l: "validationEvents ?u = [EnterContext, EnterStartTag [] ''a'', LeaveStartTag, EndTag [] ''a'', LeaveContext]"
    by (simp_all add: case_prod_unfold)
  from res have run: "cycles recordingGrammar 2 ?v0 = (?u, Inr True)"
    by (metis prod.collapse)
  from traversal_logs_events_other_than_text[of recordingGrammar 2 ?v0 ?u "Inr True"
      textDocument "[]" defaultOptions ?v0 ?u "Inr True"] a run
  obtain fired
    where f2: "validationWalker ?u = fireAll recordingGrammar (newWalker recordingGrammar) fired"
      and f3: "\<forall>i \<le> length fired.
                  (\<forall>e \<in> set (take i fired). \<not> isTextEvent e) \<longrightarrow>
                  replay recordingGrammar (validationEvents ?u) (newWalker recordingGrammar) i 0
                    = Inr (fireAll recordingGrammar (newWalker recordingGrammar) (take i fired))"
    by auto
  have nw: "newWalker recordingGrammar = []" by (simp add: recordingGrammar_def)
  from f2 w have fired: "fired
      = [EnterContext, EnterStartTag [] ''a'', LeaveStartTag, TextEvent ''x'', EndTag [] ''a'', LeaveContext]"
    by (simp add: fireAll_recording nw)
  have nt: "\<forall>e \<in> set (take 3 fired). \<not> isTextEvent e"
    by (simp add: fired isTextEvent_def)
  have len: "3 \<le> length fired" by (simp add: fired)
  have fa: "fireAll recordingGrammar (newWalker recordingGrammar) (take 3 fired)
              = [EnterContext, EnterStartTag [] ''a'', LeaveStartTag]"
    unfolding fireAll_recording nw fired by simp
  from f3 len nt have
    "replay recordingGrammar (validationEvents ?u) (newWalker recordingGrammar) 3 0
       = Inr (fireAll recordingGrammar (newWalker recordingGrammar) (take 3 fired))"
    by blast
  then have
    "replay recordingGrammar (validationEvents ?u) (newWalker recordingGrammar) 3 0
       = Inr [EnterContext, EnterStartTag [] ''a'', LeaveStartTag]"
    unfolding fa .
  with a res w l show ?thesis by simp
qed

section \<open>The walker cache gap\<close>

text \<open>
  Claim C2. Two validators built over the same tree with the same options but for two
  non-negative values of \<open>walkerCacheGap\<close> go through the same traversal: after any
  number of steps, so also at completion, the value returned or thrown by the last step,
  the error list and the working state are the same, and the two states differ in the field
  \<open>walkerCacheGap\<close> only. The gap is read in \<open>readyWalker\<close> alone, which changes nothing
  but the cache and its maximum, and changes them only by inserting the walker it returns
  at the event index asked for, after a replay whose distance (from the nearest snapshot
  to the event index) is at least the gap. What \<open>readyWalker\<close> returns does not depend on
  what is cached: the cache of a fresh validator is coherent with the log, traversal steps
  and \<open>readyWalker\<close> keep it so, and under a coherent cache \<open>readyWalker\<close> returns what
  replaying the log from a new walker up to the event index returns.
\<close>

theorem cache_gap_changes_only_the_cache:
  fixes g :: "('w, 'p) grammar"
  shows
  "(0 \<le> x1 \<and> 0 \<le> x2 \<and> \<not> negativeOption t \<and> \<not> negativeOption m \<longrightarrow>
      newValidator g d r (Options p t m (Some x1)) = Inr (initialState g d r (Options p t m (Some x1))) \<and>
      newValidator g d r (Options p t m (Some x2)) = Inr (initialState g d r (Options p t m (Some x2))) \<and>
      (\<forall>n. snd (cycles g n (initialState g d r (Options p t m (Some x2))))
             = snd (cycles g n (initialState g d r (Options p t m (Some x1)))) \<and>
           fst (cycles g n (initialState g d r (Options p t m (Some x2))))
             = (fst (cycles g n (initialState g d r (Options p t m (Some x1)))))\<lparr>walkerCacheGap := x2\<rparr> \<and>
           errors (fst (cycles g n (initialState g d r (Options p t m (Some x2)))))
             = errors (fst (cycles g n (initialState g d r (Options p t m (Some x1))))) \<and>
           workingState (fst (cycles g n (initialState g d r (Options p t m (Some x2)))))
             = workingState (fst (cycles g n (initialState g d r (Options p t m (Some x1))))))) \<and>
   (readyWalker g v ei = (v', res) \<longrightarrow>
      v' = v\<lparr>walkerCache := walkerCache v', walkerCacheMax := walkerCacheMax v'\<rparr> \<and>
      (walkerCache v' \<noteq> walkerCache v \<or> walkerCacheMax v' \<noteq> walkerCacheMax v \<longrightarrow>
         (\<exists>eventIndex w. ei = Some eventIndex \<and> res = Inr w \<and>
            walkerCacheGap v \<le> int eventIndex - fst (nearestSnapshot g v eventIndex) \<and>
            replay g (validationEvents v) (snd (nearestSnapshot g v eventIndex))
              (nat (int eventIndex - fst (nearestSnapshot g v eventIndex)))
              (fst (nearestSnapshot g v eventIndex)) = Inr w \<and>
            walkerCache v' = (walkerCache v)(int eventIndex \<mapsto> w) \<and>
            walkerCacheMax v' = max (int eventIndex) (walkerCacheMax v)))) \<and>
   cacheCoherent g (initialState g d r opts) \<and>
   (cacheCoherent g u \<longrightarrow> cacheCoherent g (fst (cycles g k u))) \<and>
   (cacheCoherent g u \<and> readyWalker g u (Some i) = (u', res') \<longrightarrow>
      cacheCoherent g u' \<and> res' = replay g (validationEvents u) (newWalker g) i 0)"
proof -
  have new: "newValidator g d r (Options p t m (Some x)) = Inr (initialState g d r (Options p t m (Some x)))"
    if "0 \<le> x" "\<not> negativeOption t" "\<not> negativeOption m" for x
    using that by (simp add: newValidator_def negativeOption_def)
  have run: "cycles g n (initialState g d r (Options p t m (Some x2)))
               = (withGap x2 (fst (cycles g n (initialState g d r (Options p t m (Some x1))))),
                  snd (cycles g n (initialState g d r (Options p t m (Some x1)))))" for n
    using initialState_gap[of g d r p t m x2 "Some x1"] cycles_gap[of g n x2] by simp
  have runs: "snd (cycles g n (initialState g d r (Options p t m (Some x2))))
             = snd (cycles g n (initialState g d r (Options p t m (Some x1)))) \<and>
           fst (cycles g n (initialState g d r (Options p t m (Some x2))))
             = (fst (cycles g n (initialState g d r (Options p t m (Some x1)))))\<lparr>walkerCacheGap := x2\<rparr> \<and>
           errors (fst (cycles g n (initialState g d r (Options p t m (Some x2)))))
             = errors (fst (cycles g n (initialState g d r (Options p t m (Some x1))))) \<and>
           workingState (fst (cycles g n (initialState g d r (Options p t m (Some x2)))))
             = workingState (fst (cycles g n (initialState g d r (Options p t m (Some x1)))))" for n
    unfolding run[of n] by (simp add: withGap_def)
  have first: "0 \<le> x1 \<and> 0 \<le> x2 \<and> \<not> negativeOption t \<and> \<not> negativeOption m \<longrightarrow>
      newValidator g d r (Options p t m (Some x1)) = Inr (initialState g d r (Options p t m (Some x1))) \<and>
      newValidator g d r (Options p t m (Some x2)) = Inr (initialState g d r (Options p t m (Some x2))) \<and>
      (\<forall>n. snd (cycles g n (initialState g d r (Options p t m (Some x2))))
             = snd (cycles g n (initialState g d r (Options p t m (Some x1)))) \<and>
           fst (cycles g n (initialState g d r (Options p t m (Some x2))))
             = (fst (cycles g n (initialState g d r (Options p t m (Some x1)))))\<lparr>walkerCacheGap := x2\<rparr> \<and>
           errors (fst (cycles g n (initialState g d r (Options p t m (Some x2)))))
             = errors (fst (cycles g n (initialState g d r (Options p t m (Some x1))))) \<and>
           workingState (fst (cycles g n (initialState g d r (Options p t m (Some x2)))))
             = workingState (fst (cycles g n (initialState g d r (Options p t m (Some x1))))))"
    using new[of x1] new[of x2] runs by blast
  have second: "readyWalker g v ei = (v', res) \<longrightarrow>
      v' = v\<lparr>walkerCache := walkerCache v', walkerCacheMax := walkerCacheMax v'\<rparr> \<and>
      (walkerCache v' \<noteq> walkerCache v \<or> walkerCacheMax v' \<noteq> walkerCacheMax v \<longrightarrow>
         (\<exists>eventIndex w. ei = Some eventIndex \<and> res = Inr w \<and>
            walkerCacheGap v \<le> int eventIndex - fst (nearestSnapshot g v eventIndex) \<and>
            replay g (validationEvents v) (snd (nearestSnapshot g v eventIndex))
              (nat (int eventIndex - fst (nearestSnapshot g v eventIndex)))
              (fst (nearestSnapshot g v eventIndex)) = Inr w \<and>
            walkerCache v' = (walkerCache v)(int eventIndex \<mapsto> w) \<and>
            walkerCacheMax v' = max (int eventIndex) (walkerCacheMax v)))"
    using readyWalker_frame[of g v ei v' res] by blast
  have third: "cacheCoherent g u \<and> readyWalker g u (Some i) = (u', res') \<longrightarrow>
      cacheCoherent g u' \<and> res' = replay g (validationEvents u) (newWalker g) i 0"
    using readyWalker_coherent[of g u i u' res'] by blast
  from first second third initialState_coherent[of g d r opts] cycles_coherent[of g u k]
  show ?thesis by blast
qed

theorem cache_gap_changes_only_the_cache_witness:
  "(0::int) \<le> 1 \<and> (0::int) \<le> 1000 \<and>
   \<not> negativeOption None \<and>
   (\<forall>n. errors (fst (cycles exampleGrammar n
                       (initialState exampleGrammar acbDocument [] (Options None None None (Some 1000)))))
          = errors (fst (cycles exampleGrammar n
                       (initialState exampleGrammar acbDocument [] (Options None None None (Some 1))))) \<and>
        workingState (fst (cycles exampleGrammar n
                       (initialState exampleGrammar acbDocument [] (Options None None None (Some 1000)))))
          = workingState (fst (cycles exampleGrammar n
                       (initialState exampleGrammar acbDocument [] (Options None None None (Some 1)))))) \<and>
   readyWalker exampleGrammar (initialState exampleGrammar acbDocument [] (Options None None None (Some 0))) (Some 0)
     = ((initialState exampleGrammar acbDocument [] (Options None None None (Some 0)))
          \<lparr>walkerCache := (\<lambda>_. None)(0 \<mapsto> 0), walkerCacheMax := 0\<rparr>, Inr 0) \<and>
   walkerCacheGap (initialState exampleGrammar acbDocument [] (Options None None None (Some 0)))
     \<le> int 0 - fst (nearestSnapshot exampleGrammar
                      (initialState exampleGrammar acbDocument [] (Options None None None (Some 0))) 0) \<and>
   cacheCoherent exampleGrammar (initialState exampleGrammar acbDocument [] (Options None None None (Some 0))) \<and>
   cacheCoherent exampleGrammar
     ((initialState exampleGrammar acbDocument [] (Options None None None (Some 0)))
        \<lparr>walkerCache := (\<lambda>_. None)(0 \<mapsto> 0), walkerCacheMax := 0\<rparr>) \<and>
   replay exampleGrammar
     (validationEvents (initialState exampleGrammar acbDocument [] (Options None None None (Some 0))))
     (newWalker exampleGrammar) 0 0 = Inr 0"
proof -
  let ?v = "initialState exampleGrammar acbDocument [] (Options None None None (Some 0))"
  have rw: "readyWalker exampleGrammar ?v (Some 0)
              = (?v\<lparr>walkerCache := (\<lambda>_. None)(0 \<mapsto> 0), walkerCacheMax := 0\<rparr>, Inr 0)"
    by (simp add: readyWalker_def nearestSnapshot_def Let_def optionOr_def)
       (simp add: exampleGrammar_def)
  have ch: "walkerCache (?v\<lparr>walkerCache := (\<lambda>_. None)(0 \<mapsto> 0), walkerCacheMax := 0\<rparr>) \<noteq> walkerCache ?v"
    by (simp add: fun_eq_iff)
  from cache_gap_changes_only_the_cache[of 1 1000 None None exampleGrammar acbDocument "[]" None
      ?v "Some 0" "?v\<lparr>walkerCache := (\<lambda>_. None)(0 \<mapsto> 0), walkerCacheMax := 0\<rparr>" "Inr 0"
      "Options None None None (Some 0)" ?v 0 0
      "?v\<lparr>walkerCache := (\<lambda>_. None)(0 \<mapsto> 0), walkerCacheMax := 0\<rparr>" "Inr 0"] rw ch
  show ?thesis by (simp add: negativeOption_def)
qed

end
